theory Spec2Isabelle
  imports Complex_Main "HOL-Library.Sublist"
begin

section \<open>JavaScript strings and values\<close>

text \<open>
  A JavaScript string is modelled as a \<^typ>\<open>string\<close>, one \<^typ>\<open>char\<close> per code unit.
  \<open>String.prototype.includes\<close> asks whether the pattern matches at some position;
  \<open>String.prototype.split\<close> with a string separator scans from the left, cuts at the
  earliest match, and resumes the scan behind the match (matches never overlap).
  With the empty separator, \<open>split\<close> returns the code units one by one.
\<close>

fun str_includes :: "string \<Rightarrow> string \<Rightarrow> bool" where
  "str_includes [] pat = (pat = [])"
| "str_includes (c # cs) pat = (prefix pat (c # cs) \<or> str_includes cs pat)"

text \<open>
  An occurrence of \<open>pat\<close> starts within \<open>a\<close> when \<open>pat\<close> matches at a position of
  \<open>a\<close>, even if the match runs past the end of \<open>a\<close> into a following \<open>pat\<close>. When
  none does, an occurrence right behind \<open>a\<close> is the first one.
\<close>

definition starts_within :: "string \<Rightarrow> string \<Rightarrow> bool" where
  "starts_within pat a = str_includes (a @ butlast pat) pat"

function split_scan :: "string \<Rightarrow> string \<Rightarrow> string \<Rightarrow> string list" where
  "split_scan sep cur [] = [cur]"
| "split_scan sep cur (c # cs) =
     (if sep \<noteq> [] \<and> prefix sep (c # cs)
      then cur # split_scan sep [] (drop (length sep) (c # cs))
      else split_scan sep (cur @ [c]) cs)"
  by pat_completeness auto
termination
  by (relation "measure (\<lambda>(sep, cur, s). length s)") (auto simp: neq_Nil_conv)

definition str_split :: "string \<Rightarrow> string \<Rightarrow> string list" where
  "str_split s sep = (if sep = [] then map (\<lambda>c. [c]) s else split_scan sep [] s)"

text \<open>Reading \<open>parts[i]\<close> of an array gives \<open>undefined\<close> (here \<open>None\<close>) out of range.\<close>

definition at_index :: "'a list \<Rightarrow> nat \<Rightarrow> 'a option" where
  "at_index xs i = (if i < length xs then Some (xs ! i) else None)"

text \<open>\<open>arr.join(sep)\<close> on an array of strings.\<close>

fun str_join :: "string \<Rightarrow> string list \<Rightarrow> string" where
  "str_join sep [] = []"
| "str_join sep [x] = x"
| "str_join sep (x # y # ys) = x @ sep @ str_join sep (y # ys)"

text \<open>
  The white space of \<open>String.prototype.trim\<close> and of the regular expression class
  \<open>\s\<close>, as far as it lies in the 8-bit range: TAB, LF, VT, FF, CR, SPACE, NBSP.
\<close>

definition js_whitespace :: "char \<Rightarrow> bool" where
  "js_whitespace c = (c \<in> {CHR 0x09, CHR 0x0A, CHR 0x0B, CHR 0x0C, CHR 0x0D, CHR 0x20, CHR 0xA0})"

definition trim :: "string \<Rightarrow> string" where
  "trim s = rev (dropWhile js_whitespace (rev (dropWhile js_whitespace s)))"

text \<open>
  An optional string is truthy when it is present and not empty
  (\<open>if (chunk.text)\<close>, \<open>aTime && bTime\<close>, \<open>title || uri\<close>).
\<close>

fun truthy_str :: "string option \<Rightarrow> bool" where
  "truthy_str None = False"
| "truthy_str (Some s) = (s \<noteq> [])"

text \<open>
  What \<open>JSON.parse\<close> returns. \<open>JSON.parse\<close> itself is a builtin of the platform and
  not code of the repository: the functions below take it as the parameter
  \<open>parse\<close>, with \<open>None\<close> for a thrown \<open>SyntaxError\<close>. An object is its list of
  own properties, each key once.
\<close>

datatype json =
    JNull
  | JBool bool
  | JNum real
  | JStr string
  | JArr "json list"
  | JObj "(string \<times> json) list"

fun truthy :: "json \<Rightarrow> bool" where
  "truthy JNull = False"
| "truthy (JBool b) = b"
| "truthy (JNum x) = (x \<noteq> 0)"
| "truthy (JStr s) = (s \<noteq> [])"
| "truthy (JArr xs) = True"
| "truthy (JObj kvs) = True"

text \<open>
  The truthiness of \<open>v.length\<close>: the number of elements of an array or of code units
  of a string, the own property \<open>length\<close> of an object, \<open>undefined\<close> on a number or
  a boolean. Reading \<open>null.length\<close> raises a \<open>TypeError\<close> in JavaScript; the one
  place that reads \<open>.length\<close> (\<open>collectedSources\<close>, which only ever holds \<open>[]\<close> or
  a truthy value, see \<open>consume_invariant\<close>) never does so on \<open>null\<close>.
\<close>

fun length_truthy :: "json \<Rightarrow> bool" where
  "length_truthy (JArr xs) = (xs \<noteq> [])"
| "length_truthy (JStr s) = (s \<noteq> [])"
| "length_truthy (JObj kvs) = (case map_of kvs ''length'' of None \<Rightarrow> False | Some v \<Rightarrow> truthy v)"
| "length_truthy (JNum x) = False"
| "length_truthy (JBool b) = False"
| "length_truthy JNull = False"

section \<open>Data model (types.ts)\<close>

record Emotion =
  emotion :: string
  justification :: string

record EmotionAnalysis =
  summary :: string
  emotions :: "Emotion list"

record ActionItem =
  item_text :: string
  completed :: bool
  dueDate :: string
  time :: "string option"

record ProcessedNoteWithId =
  note_id :: string
  note_createdAt :: string
  refinedNote :: string
  emotionAnalysis :: EmotionAnalysis
  actionItems :: "ActionItem list"

record WebSource =
  ws_uri :: string
  ws_title :: string

text \<open>
  \<open>AskAIResponse.sources\<close> is declared \<open>SourceSnippet[]\<close>, but at run time it holds
  whatever \<open>JSON.parse\<close> returned, so it is a \<^typ>\<open>json\<close> value here.
\<close>

record AskAIResponse =
  answer :: string
  sources :: json
  webSources :: "WebSource list option"

datatype Role = RoleUser | RoleModel

datatype Content = Plain string | Structured AskAIResponse

record ChatMessage =
  role :: Role
  content :: Content

record ChatSession =
  session_id :: string
  title :: string
  createdAt :: string
  noteIds :: "string list"
  messages :: "ChatMessage list"

section \<open>The generation backend\<close>

text \<open>
  One chunk of \<open>generateContentStream\<close>: its text and, through
  \<open>candidates?.[0]?.groundingMetadata?.groundingChunks\<close>, its web references.
  Every optional member is an \<open>option\<close>; the uri of a web reference is a string, as
  \<open>WebSource.uri\<close> declares it.
\<close>

record GroundingWeb =
  web_uri :: string
  web_title :: "string option"

record GroundingChunk =
  web :: "GroundingWeb option"

record GroundingMetadata =
  groundingChunks :: "GroundingChunk list option"

record Candidate =
  groundingMetadata :: "GroundingMetadata option"

record Chunk =
  chunk_text :: "string option"
  candidates :: "Candidate list option"

text \<open>
  What the backend answers to one request: the chunks it delivers, and whether the
  iteration then ends (\<open>failed = False\<close>) or rejects (\<open>failed = True\<close>; a request that
  is refused at once has no chunks).
\<close>

record BackendStream =
  delivered :: "Chunk list"
  failed :: bool

record GenerateRequest =
  model :: string
  contents :: string
  googleSearch :: bool
  temperature :: real

type_synonym Backend = "GenerateRequest \<Rightarrow> BackendStream"

section \<open>The streaming answer protocol (continueChatStream)\<close>

text \<open>
  The generator yields objects \<open>{ text?, sources?, webSources? }\<close>. A run of the
  generator is the sequence of its steps, in the order the code performs them (a chunk
  pulled from the backend, an object yielded to the caller), and the way it ends.
\<close>

record StreamEvent =
  ev_text :: "string option"
  ev_sources :: "json option"
  ev_webSources :: "WebSource list option"

definition text_event :: "string option \<Rightarrow> StreamEvent" where
  "text_event t = \<lparr>ev_text = t, ev_sources = None, ev_webSources = None\<rparr>"

definition sources_event :: "json \<Rightarrow> StreamEvent" where
  "sources_event v = \<lparr>ev_text = None, ev_sources = Some v, ev_webSources = None\<rparr>"

definition webSources_event :: "WebSource list \<Rightarrow> StreamEvent" where
  "webSources_event ws = \<lparr>ev_text = None, ev_sources = None, ev_webSources = Some ws\<rparr>"

datatype GenStep = Pulled Chunk | Yielded StreamEvent

datatype Completion = Returned | Threw string

type_synonym GenRun = "GenStep list \<times> Completion"

fun yielded :: "GenStep list \<Rightarrow> StreamEvent list" where
  "yielded [] = []"
| "yielded (Pulled c # steps) = yielded steps"
| "yielded (Yielded e # steps) = e # yielded steps"

subsection \<open>The prompts\<close>

definition note_block :: "ProcessedNoteWithId \<Rightarrow> string" where
  "note_block note =
   ''--- NOTE START ---\<newline>'' @ ''noteId: '' @ [CHR 0x22] @ note_id note @
   [CHR 0x22] @ ''\<newline>'' @ ''Content:\<newline>'' @ refinedNote note @
   ''\<newline>'' @ ''--- NOTE END ---\<newline>''"

definition notesContext :: "ProcessedNoteWithId list \<Rightarrow> string" where
  "notesContext notes = str_join ''\<newline>\<newline>'' (map note_block notes)"

text \<open>
  A user message holding an object is interpolated as \<open>[object Object]\<close>; a model
  message contributes its answer, or its content when that is a string.
\<close>

definition history_line :: "ChatMessage \<Rightarrow> string" where
  "history_line message =
     (if role message = RoleUser
      then ''User: '' @ (case content message of Plain s \<Rightarrow> s | Structured r \<Rightarrow> ''[object Object]'')
      else ''Assistant: '' @ (case content message of Plain s \<Rightarrow> s | Structured r \<Rightarrow> answer r))"

definition historyContext :: "ChatMessage list \<Rightarrow> string" where
  "historyContext history = str_join ''\<newline>'' (map history_line history)"

definition search_prompt :: "string \<Rightarrow> string \<Rightarrow> string \<Rightarrow> string" where
  "search_prompt hist ctx question =
   ''You are a helpful assistant. Your primary goal is to '' @
   ''answer the user'' @ [CHR 0x27] @
   ''s question. Use the provided conversation history and '' @
   ''context from the user'' @ [CHR 0x27] @
   ''s notes for context if relevant.\<newline>'' @
   ''        However, for the main answer, you are equipped '' @
   ''with Google Search to find the most current and relevant '' @
   ''information from the web.\<newline>'' @
   ''        Prioritize real-time web search results for '' @
   ''accuracy when the question seems to be about current '' @
   ''events or facts.\<newline>'' @ ''        \<newline>'' @
   ''        Conversation History:\<newline>'' @ ''        '' @
   hist @
   ''\<newline>'' @ ''\<newline>'' @
   ''        Context from Notes (use for personal context, '' @
   ''not for general knowledge):\<newline>'' @ ''        '' @
   ctx @
   ''\<newline>'' @ ''\<newline>'' @
   ''        Based on all available information, answer the '' @ ''user'' @
   [CHR 0x27] @ ''s question comprehensively.\<newline>'' @
   ''        Question: '' @ [CHR 0x22] @
   question @
   [CHR 0x22] @ ''\<newline>'' @ ''        ''"

definition notes_prompt :: "string \<Rightarrow> string \<Rightarrow> string \<Rightarrow> string" where
  "notes_prompt hist ctx question =
   ''You are a helpful assistant that answers questions based '' @
   ''ONLY on the provided context from a user'' @ [CHR 0x27] @
   ''s notes and the history of the current conversation.\<newline>'' @
   ''        Your task is to answer the user'' @ [CHR 0x27] @
   ''s latest question in markdown. Do not use any external '' @
   ''knowledge. \<newline>'' @ ''        \<newline>'' @
   ''        After your complete answer, on a new line, write '' @
   ''the exact separator '' @ [CHR 0x22] @ ''%%SOURCES_JSON%%'' @ [CHR 0x22] @
   ''.\<newline>'' @ ''\<newline>'' @
   ''        After the separator, provide a valid JSON array '' @
   ''of the exact source snippets from the notes that justify '' @
   ''your answer. The JSON array should be in this format: '' @ ''[{'' @
   [CHR 0x22] @ ''noteId'' @ [CHR 0x22] @ '': '' @ [CHR 0x22] @ ''string'' @
   [CHR 0x22] @ '', '' @ [CHR 0x22] @ ''snippet'' @ [CHR 0x22] @ '': '' @
   [CHR 0x22] @ ''string'' @ [CHR 0x22] @ ''}].\<newline>'' @
   ''        \<newline>'' @
   ''        If the answer cannot be found within the provided '' @
   ''notes, your answer must be '' @ [CHR 0x22] @
   ''I could not find an answer in the selected notes.'' @ [CHR 0x22] @
   '' and you must not include the separator or the JSON '' @
   ''block.\<newline>'' @ ''\<newline>'' @
   ''        Here is the context from the notes:\<newline>'' @ ''        '' @
   ctx @
   ''\<newline>'' @ ''\<newline>'' @
   ''        Here is the conversation history so far:\<newline>'' @ ''        '' @
   hist @
   ''\<newline>'' @ ''\<newline>'' @
   ''        Based ONLY on the notes and conversation history '' @
   ''above, answer the following question:\<newline>'' @ ''        Question: '' @
   [CHR 0x22] @
   question @
   [CHR 0x22] @ ''\<newline>'' @ ''        ''"

definition search_request :: "ProcessedNoteWithId list \<Rightarrow> string \<Rightarrow> ChatMessage list \<Rightarrow> GenerateRequest" where
  "search_request notes question history =
     \<lparr>model = ''gemini-2.5-flash'',
      contents = search_prompt (historyContext history) (notesContext notes) question,
      googleSearch = True, temperature = 0.5\<rparr>"

definition notes_request :: "ProcessedNoteWithId list \<Rightarrow> string \<Rightarrow> ChatMessage list \<Rightarrow> GenerateRequest" where
  "notes_request notes question history =
     \<lparr>model = ''gemini-2.5-flash'',
      contents = notes_prompt (historyContext history) (notesContext notes) question,
      googleSearch = False, temperature = 0.1\<rparr>"

subsection \<open>Search-augmented mode\<close>

text \<open>The \<open>for await\<close> loop: every chunk is pulled, and its text, when truthy, yielded at once.\<close>

fun forward_chunks :: "Chunk list \<Rightarrow> GenStep list" where
  "forward_chunks [] = []"
| "forward_chunks (chunk # rest) =
     Pulled chunk
     # (if truthy_str (chunk_text chunk) then [Yielded (text_event (chunk_text chunk))] else [])
     @ forward_chunks rest"

definition chunk_groundingChunks :: "Chunk \<Rightarrow> GroundingChunk list option" where
  "chunk_groundingChunks chunk =
     (case candidates chunk of
        None \<Rightarrow> None
      | Some cs \<Rightarrow>
          (case at_index cs 0 of
             None \<Rightarrow> None
           | Some c \<Rightarrow>
               (case groundingMetadata c of
                  None \<Rightarrow> None
                | Some gm \<Rightarrow> groundingChunks gm)))"

definition web_source :: "GroundingWeb \<Rightarrow> WebSource" where
  "web_source w =
     \<lparr>ws_uri = web_uri w,
      ws_title = (if truthy_str (web_title w) then the (web_title w) else web_uri w)\<rparr>"

fun grounding_webSources :: "GroundingChunk list \<Rightarrow> WebSource list" where
  "grounding_webSources [] = []"
| "grounding_webSources (grounding # rest) =
     (case web grounding of
        None \<Rightarrow> grounding_webSources rest
      | Some w \<Rightarrow> web_source w # grounding_webSources rest)"

fun collect_webSources :: "Chunk list \<Rightarrow> WebSource list" where
  "collect_webSources [] = []"
| "collect_webSources (chunk # rest) =
     (case chunk_groundingChunks chunk of
        None \<Rightarrow> collect_webSources rest
      | Some gs \<Rightarrow> grounding_webSources gs @ collect_webSources rest)"

text \<open>
  \<open>new Map(entries)\<close> sets the entries one after the other: a key that is already
  present keeps its place and takes the new value, a new key goes to the end;
  \<open>values()\<close> lists the values in that order.
\<close>

fun Map_set :: "'k \<Rightarrow> 'v \<Rightarrow> ('k \<times> 'v) list \<Rightarrow> ('k \<times> 'v) list" where
  "Map_set k v [] = [(k, v)]"
| "Map_set k v ((k', v') # m) = (if k' = k then (k, v) # m else (k', v') # Map_set k v m)"

definition Map_new :: "('k \<times> 'v) list \<Rightarrow> ('k \<times> 'v) list" where
  "Map_new entries = foldl (\<lambda>m (k, v). Map_set k v m) [] entries"

definition Map_values :: "('k \<times> 'v) list \<Rightarrow> 'v list" where
  "Map_values m = map snd m"

definition uniqueWebSources :: "WebSource list \<Rightarrow> WebSource list" where
  "uniqueWebSources collected = Map_values (Map_new (map (\<lambda>item. (ws_uri item, item)) collected))"

definition search_stream :: "BackendStream \<Rightarrow> GenRun" where
  "search_stream result =
     (let allChunks = delivered result;
          steps = forward_chunks allChunks
      in if failed result
         then (steps, Threw ''Failed to get a valid response from the AI service with Google Search.'')
         else
           (let unique = uniqueWebSources (collect_webSources allChunks)
            in if length unique > 0
               then (steps @ [Yielded (webSources_event unique)], Returned)
               else (steps, Returned)))"

subsection \<open>Grounded-only mode\<close>

definition separator :: string where
  "separator = ''%%SOURCES_JSON%%''"

fun buffer_chunks :: "string \<Rightarrow> Chunk list \<Rightarrow> string" where
  "buffer_chunks fullText [] = fullText"
| "buffer_chunks fullText (chunk # rest) =
     buffer_chunks (if truthy_str (chunk_text chunk) then fullText @ the (chunk_text chunk) else fullText) rest"

text \<open>
  \<open>JSON.parse(jsonPart)\<close>: an \<open>undefined\<close> argument is converted to the string
  \<open>undefined\<close> before parsing.
\<close>

definition parse_part :: "(string \<Rightarrow> json option) \<Rightarrow> string option \<Rightarrow> json option" where
  "parse_part parse jsonPart = parse (case jsonPart of None \<Rightarrow> ''undefined'' | Some s \<Rightarrow> s)"

definition notes_stream :: "(string \<Rightarrow> json option) \<Rightarrow> BackendStream \<Rightarrow> GenRun" where
  "notes_stream parse resultStream =
     (let pulls = map Pulled (delivered resultStream);
          fullText = buffer_chunks [] (delivered resultStream)
      in if failed resultStream
         then (pulls, Threw ''Failed to get a valid response from the AI service for your question.'')
         else if str_includes fullText separator
         then
           (let parts = str_split fullText separator;
                answerText = at_index parts 0;
                jsonPart = at_index parts 1
            in case parse_part parse jsonPart of
                 Some parsed \<Rightarrow>
                   (pulls @ [Yielded (text_event answerText), Yielded (sources_event parsed)], Returned)
               | None \<Rightarrow> (pulls @ [Yielded (text_event answerText)], Returned))
         else (pulls @ [Yielded (text_event (Some fullText))], Returned))"

definition continueChatStream ::
  "Backend \<Rightarrow> (string \<Rightarrow> json option) \<Rightarrow> ProcessedNoteWithId list \<Rightarrow> string \<Rightarrow> ChatMessage list \<Rightarrow> bool \<Rightarrow> GenRun"
where
  "continueChatStream ai parse notes question history useGoogleSearch =
     (if useGoogleSearch
      then search_stream (ai (search_request notes question history))
      else notes_stream parse (ai (notes_request notes question history)))"

text \<open>The one request \<open>continueChatStream\<close> sends to the backend.\<close>

definition chat_request :: "ProcessedNoteWithId list \<Rightarrow> string \<Rightarrow> ChatMessage list \<Rightarrow> bool \<Rightarrow> GenerateRequest" where
  "chat_request notes q history useSearch =
     (if useSearch then search_request notes q history else notes_request notes q history)"

text \<open>
  The text the backend streamed: the texts of the chunks in order, a chunk without
  text (or with the empty text) contributing nothing. \<open>buffer_chunks\<close> computes it
  (\<open>buffer_chunks_streamed_text\<close>).
\<close>

definition streamed_text :: "Chunk list \<Rightarrow> string" where
  "streamed_text chunks = concat (map (\<lambda>c. case chunk_text c of None \<Rightarrow> [] | Some t \<Rightarrow> t) chunks)"

definition completes :: "Chunk list \<Rightarrow> BackendStream" where
  "completes chunks = \<lparr>delivered = chunks, failed = False\<rparr>"

definition breaks_after :: "Chunk list \<Rightarrow> BackendStream" where
  "breaks_after chunks = \<lparr>delivered = chunks, failed = True\<rparr>"

definition text_chunk :: "string \<Rightarrow> Chunk" where
  "text_chunk t = \<lparr>chunk_text = Some t, candidates = None\<rparr>"

section \<open>A reference JSON parser\<close>

text \<open>
  The properties of the protocol below hold for every \<open>parse\<close>. To run the protocol
  on concrete backend texts, \<open>JSON_parse\<close> is a recursive-descent parser of the JSON
  grammar (RFC 8259): white space, \<open>null\<close>, \<open>true\<close>, \<open>false\<close>, numbers (with their
  exact decimal value), strings with their escapes, arrays and objects (a repeated key
  keeps its place and takes the last value). Strings are over the 8-bit characters of
  the model, so an escape \<open>\uXXXX\<close> is accepted up to \<open>\u00FF\<close>. The fuel bounds the
  nesting and the number of elements; \<open>JSON_parse\<close> gives the length of the text plus
  one.
\<close>

definition json_ws :: "char \<Rightarrow> bool" where
  "json_ws c = (c \<in> {CHR 0x20, CHR 0x09, CHR 0x0A, CHR 0x0D})"

definition skip_ws :: "string \<Rightarrow> string" where
  "skip_ws s = dropWhile json_ws s"

definition is_digit :: "char \<Rightarrow> bool" where
  "is_digit c = (48 \<le> (of_char c :: nat) \<and> (of_char c :: nat) \<le> 57)"

definition digit_val :: "char \<Rightarrow> nat" where
  "digit_val c = of_char c - 48"

definition digits_val :: "string \<Rightarrow> nat" where
  "digits_val ds = foldl (\<lambda>n d. 10 * n + digit_val d) 0 ds"

definition hex_val :: "char \<Rightarrow> nat option" where
  "hex_val c =
     (let n = (of_char c :: nat)
      in if 48 \<le> n \<and> n \<le> 57 then Some (n - 48)
         else if 65 \<le> n \<and> n \<le> 70 then Some (n - 55)
         else if 97 \<le> n \<and> n \<le> 102 then Some (n - 87)
         else None)"

definition unicode_escape :: "string \<Rightarrow> char option" where
  "unicode_escape hs =
     (case map hex_val hs of
        [Some a, Some b, Some c, Some d] \<Rightarrow>
          (if a = 0 \<and> b = 0 then Some (char_of (16 * c + d)) else None)
      | _ \<Rightarrow> None)"

definition simple_escape :: "char \<Rightarrow> char option" where
  "simple_escape e =
     (if e = CHR 0x22 then Some (CHR 0x22)
      else if e = CHR 0x5C then Some (CHR 0x5C)
      else if e = CHR ''/'' then Some (CHR ''/'')
      else if e = CHR ''b'' then Some (CHR 0x08)
      else if e = CHR ''f'' then Some (CHR 0x0C)
      else if e = CHR ''n'' then Some (CHR 0x0A)
      else if e = CHR ''r'' then Some (CHR 0x0D)
      else if e = CHR ''t'' then Some (CHR 0x09)
      else None)"

fun parse_chars :: "string \<Rightarrow> string \<Rightarrow> (string \<times> string) option" where
  "parse_chars acc [] = None"
| "parse_chars acc [c] = (if c = CHR 0x22 then Some (acc, []) else None)"
| "parse_chars acc (c # e # cs) =
     (if c = CHR 0x22 then Some (acc, e # cs)
      else if c = CHR 0x5C then
        (if e = CHR ''u''
         then (case unicode_escape (take 4 cs) of
                 None \<Rightarrow> None
               | Some u \<Rightarrow> parse_chars (acc @ [u]) (drop 4 cs))
         else (case simple_escape e of
                 None \<Rightarrow> None
               | Some u \<Rightarrow> parse_chars (acc @ [u]) cs))
      else if (of_char c :: nat) < 32 then None
      else parse_chars (acc @ [c]) (e # cs))"

definition parse_number :: "string \<Rightarrow> (real \<times> string) option" where
  "parse_number s =
     (let negative = (s \<noteq> [] \<and> hd s = CHR ''-'');
          s1 = (if negative then tl s else s);
          ints = takeWhile is_digit s1;
          s2 = dropWhile is_digit s1;
          has_frac = (s2 \<noteq> [] \<and> hd s2 = CHR ''.'');
          fracs = (if has_frac then takeWhile is_digit (tl s2) else []);
          s3 = (if has_frac then dropWhile is_digit (tl s2) else s2);
          has_exp = (s3 \<noteq> [] \<and> (hd s3 = CHR ''e'' \<or> hd s3 = CHR ''E''));
          s4 = (if has_exp then tl s3 else s3);
          exp_neg = (has_exp \<and> s4 \<noteq> [] \<and> hd s4 = CHR ''-'');
          s5 = (if has_exp \<and> s4 \<noteq> [] \<and> (hd s4 = CHR ''-'' \<or> hd s4 = CHR ''+'') then tl s4 else s4);
          exps = (if has_exp then takeWhile is_digit s5 else []);
          s6 = (if has_exp then dropWhile is_digit s5 else s3);
          mantissa = real (digits_val (ints @ fracs)) / 10 ^ length fracs;
          scaled = (if exp_neg then mantissa / 10 ^ digits_val exps else mantissa * 10 ^ digits_val exps)
      in if ints = [] \<or> (length ints > 1 \<and> hd ints = CHR ''0'')
            \<or> (has_frac \<and> fracs = []) \<or> (has_exp \<and> exps = [])
         then None
         else Some (if negative then - scaled else scaled, s6))"

fun parse_value :: "nat \<Rightarrow> string \<Rightarrow> (json \<times> string) option"
  and parse_elements :: "nat \<Rightarrow> json list \<Rightarrow> string \<Rightarrow> (json list \<times> string) option"
  and parse_members :: "nat \<Rightarrow> (string \<times> json) list \<Rightarrow> string \<Rightarrow> ((string \<times> json) list \<times> string) option"
where
  "parse_value 0 s = None"
| "parse_value (Suc n) s =
     (case skip_ws s of
        [] \<Rightarrow> None
      | c # cs \<Rightarrow>
          if c = CHR ''[''
          then (case skip_ws cs of
                  [] \<Rightarrow> None
                | d # ds \<Rightarrow>
                    if d = CHR '']'' then Some (JArr [], ds)
                    else map_option (\<lambda>(vs, r). (JArr vs, r)) (parse_elements n [] cs))
          else if c = CHR ''{''
          then (case skip_ws cs of
                  [] \<Rightarrow> None
                | d # ds \<Rightarrow>
                    if d = CHR ''}'' then Some (JObj [], ds)
                    else map_option (\<lambda>(kvs, r). (JObj kvs, r)) (parse_members n [] cs))
          else if c = CHR 0x22
          then map_option (\<lambda>(str, r). (JStr str, r)) (parse_chars [] cs)
          else if prefix ''true'' (c # cs) then Some (JBool True, drop 4 (c # cs))
          else if prefix ''false'' (c # cs) then Some (JBool False, drop 5 (c # cs))
          else if prefix ''null'' (c # cs) then Some (JNull, drop 4 (c # cs))
          else map_option (\<lambda>(x, r). (JNum x, r)) (parse_number (c # cs)))"
| "parse_elements 0 acc s = None"
| "parse_elements (Suc n) acc s =
     (case parse_value n s of
        None \<Rightarrow> None
      | Some (v, r) \<Rightarrow>
          (case skip_ws r of
             [] \<Rightarrow> None
           | c # cs \<Rightarrow>
               if c = CHR '','' then parse_elements n (acc @ [v]) cs
               else if c = CHR '']'' then Some (acc @ [v], cs)
               else None))"
| "parse_members 0 acc s = None"
| "parse_members (Suc n) acc s =
     (case skip_ws s of
        [] \<Rightarrow> None
      | q # qs \<Rightarrow>
          if q \<noteq> CHR 0x22 then None
          else
            (case parse_chars [] qs of
               None \<Rightarrow> None
             | Some (k, r) \<Rightarrow>
                 (case skip_ws r of
                    [] \<Rightarrow> None
                  | c # cs \<Rightarrow>
                      if c \<noteq> CHR '':'' then None
                      else
                        (case parse_value n cs of
                           None \<Rightarrow> None
                         | Some (v, r') \<Rightarrow>
                             (case skip_ws r' of
                                [] \<Rightarrow> None
                              | d # ds \<Rightarrow>
                                  if d = CHR '','' then parse_members n (Map_set k v acc) ds
                                  else if d = CHR ''}'' then Some (Map_set k v acc, ds)
                                  else None)))))"

definition JSON_parse :: "string \<Rightarrow> json option" where
  "JSON_parse s =
     (case parse_value (Suc (length s)) s of
        None \<Rightarrow> None
      | Some (v, r) \<Rightarrow> if skip_ws r = [] then Some v else None)"

section \<open>The Today aggregator (notesService.ts)\<close>

text \<open>
  The reading of the local clock that \<open>new Date()\<close> gives: \<open>getFullYear()\<close>,
  \<open>getMonth()\<close> (January is 0) and \<open>getDate()\<close>.
\<close>

record LocalDate =
  fullYear :: nat
  monthIndex :: nat
  dayOfMonth :: nat

text \<open>\<open>Number.prototype.toString\<close> on a natural number, and \<open>padStart\<close>.\<close>

function toString_nat :: "nat \<Rightarrow> string" where
  "toString_nat n =
     (if n < 10 then [char_of (48 + n)]
      else toString_nat (n div 10) @ [char_of (48 + n mod 10)])"
  by pat_completeness auto
termination
  by (relation "measure (\<lambda>n. n)") auto

declare toString_nat.simps [simp del]

definition padStart :: "string \<Rightarrow> nat \<Rightarrow> char \<Rightarrow> string" where
  "padStart s n c = replicate (n - length s) c @ s"

definition localTodayStr :: "LocalDate \<Rightarrow> string" where
  "localTodayStr today =
     (let year = toString_nat (fullYear today);
          month = padStart (toString_nat (monthIndex today + 1)) 2 (CHR ''0'');
          day = padStart (toString_nat (dayOfMonth today)) 2 (CHR ''0'')
      in year @ ''-'' @ month @ ''-'' @ day)"

definition isActionItemForToday :: "LocalDate \<Rightarrow> string \<Rightarrow> bool" where
  "isActionItemForToday today due =
     (if due = [] then False else due = localTodayStr today)"

record TodaysActionItem =
  noteId :: string
  itemIndex :: nat
  item :: ActionItem
  noteTitle :: string

text \<open>
  \<open>note.refinedNote.split('\n')[0].replace(/^#\s*/, '') || 'Untitled Note'\<close>: the
  first line, without a leading \<open>#\<close> and the white space behind it; when nothing is
  left, the default title. The split by a non-empty separator has a first part
  (\<open>str_split_nonempty\<close>).
\<close>

definition strip_heading :: "string \<Rightarrow> string" where
  "strip_heading line =
     (case line of
        [] \<Rightarrow> []
      | c # cs \<Rightarrow> if c = CHR ''#'' then dropWhile js_whitespace cs else c # cs)"

definition note_title :: "ProcessedNoteWithId \<Rightarrow> string" where
  "note_title note =
     (let stripped = strip_heading (hd (str_split (refinedNote note) ''\<newline>''))
      in if stripped = [] then ''Untitled Note'' else stripped)"

text \<open>The inner \<open>forEach((item, index) => ...)\<close> of one note, from index \<open>index\<close> on.\<close>

fun todays_of_note :: "LocalDate \<Rightarrow> ProcessedNoteWithId \<Rightarrow> nat \<Rightarrow> ActionItem list \<Rightarrow> TodaysActionItem list" where
  "todays_of_note today note index [] = []"
| "todays_of_note today note index (it # rest) =
     (if isActionItemForToday today (dueDate it) \<and> \<not> completed it
      then \<lparr>noteId = note_id note, itemIndex = index, item = it, noteTitle = note_title note\<rparr>
           # todays_of_note today note (Suc index) rest
      else todays_of_note today note (Suc index) rest)"

fun todays_unsorted :: "LocalDate \<Rightarrow> ProcessedNoteWithId list \<Rightarrow> TodaysActionItem list" where
  "todays_unsorted today [] = []"
| "todays_unsorted today (note # rest) =
     todays_of_note today note 0 (actionItems note) @ todays_unsorted today rest"

text \<open>
  The comparator of the sort. \<open>String.prototype.localeCompare\<close> is the collation of
  the platform and is taken as the parameter \<open>localeCompare\<close>.
\<close>

definition compare_today :: "(string \<Rightarrow> string \<Rightarrow> int) \<Rightarrow> TodaysActionItem \<Rightarrow> TodaysActionItem \<Rightarrow> int" where
  "compare_today localeCompare a b =
     (let aTime = time (item a); bTime = time (item b)
      in if truthy_str aTime \<and> truthy_str bTime then localeCompare (the aTime) (the bTime)
         else if truthy_str aTime then - 1
         else if truthy_str bTime then 1
         else 0)"

text \<open>An entry is timed when its item has a time that is not the empty string.\<close>

definition has_time :: "TodaysActionItem \<Rightarrow> bool" where
  "has_time e = truthy_str (time (item e))"

text \<open>
  \<open>Array.prototype.sort\<close> is a stable sort: with a consistent comparator its result
  is the one arrangement that is ordered and keeps equal elements in their order, which
  is what a stable insertion sort computes (\<open>array_sort_sorted\<close>, \<open>array_sort_stable\<close>).
\<close>

fun sort_insert :: "('a \<Rightarrow> 'a \<Rightarrow> int) \<Rightarrow> 'a \<Rightarrow> 'a list \<Rightarrow> 'a list" where
  "sort_insert cmp x [] = [x]"
| "sort_insert cmp x (y # ys) = (if cmp x y \<le> 0 then x # y # ys else y # sort_insert cmp x ys)"

definition array_sort :: "('a \<Rightarrow> 'a \<Rightarrow> int) \<Rightarrow> 'a list \<Rightarrow> 'a list" where
  "array_sort cmp xs = foldr (sort_insert cmp) xs []"

definition getTodaysActionItemsFromNotes ::
  "(string \<Rightarrow> string \<Rightarrow> int) \<Rightarrow> LocalDate \<Rightarrow> ProcessedNoteWithId list \<Rightarrow> TodaysActionItem list"
where
  "getTodaysActionItemsFromNotes localeCompare today notes =
     array_sort (compare_today localeCompare) (todays_unsorted today notes)"

text \<open>
  A comparator for running the aggregator on concrete notes: the comparison by code
  units, with which the collation agrees on times written \<open>HH:MM\<close>.
\<close>

fun codeUnitCompare :: "string \<Rightarrow> string \<Rightarrow> int" where
  "codeUnitCompare [] [] = 0"
| "codeUnitCompare [] (y # ys) = - 1"
| "codeUnitCompare (x # xs) [] = 1"
| "codeUnitCompare (x # xs) (y # ys) =
     (if (of_char x :: nat) < of_char y then - 1
      else if (of_char y :: nat) < of_char x then 1
      else codeUnitCompare xs ys)"

text \<open>A comparator is consistent when \<open>cmp a b \<le> 0\<close> is a total preorder.\<close>

definition consistent :: "('a \<Rightarrow> 'a \<Rightarrow> int) \<Rightarrow> bool" where
  "consistent cmp \<longleftrightarrow>
     (\<forall>a b. cmp a b \<le> 0 \<or> cmp b a \<le> 0) \<and>
     (\<forall>a b c. cmp a b \<le> 0 \<longrightarrow> cmp b c \<le> 0 \<longrightarrow> cmp a c \<le> 0)"

section \<open>Session reconciliation (ChatDetailView.handleSubmit)\<close>

text \<open>
  The state of the component (its \<open>useState\<close> cells), and what one call of
  \<open>handleSubmit\<close> does besides changing it: the call of \<open>continueChatStream\<close> with
  its arguments, every event taken from the generator, and the call of
  \<open>onSessionUpdate\<close>, in the order the code performs them. \<open>setSession\<close> with an
  updater function is applied to the state as it is at that point.
\<close>

record ViewState =
  session :: ChatSession
  question :: string
  isStreaming :: bool
  error :: "string option"
  useGoogleSearch :: bool

datatype Effect =
    StreamCalled "ProcessedNoteWithId list" string "ChatMessage list" bool
  | EventReceived StreamEvent
  | SessionUpdated ChatSession

record Exchange =
  final_state :: ViewState
  effects :: "Effect list"

text \<open>The loop variables \<open>fullAnswer\<close>, \<open>collectedSources\<close> and \<open>collectedWebSources\<close>.\<close>

record Collected =
  fullAnswer :: string
  collectedSources :: json
  collectedWebSources :: "WebSource list"

definition userMessage :: "string \<Rightarrow> ChatMessage" where
  "userMessage questionToAsk = \<lparr>role = RoleUser, content = Plain questionToAsk\<rparr>"

definition placeholderMessage :: ChatMessage where
  "placeholderMessage =
     \<lparr>role = RoleModel, content = Structured \<lparr>answer = [], sources = JArr [], webSources = None\<rparr>\<rparr>"

text \<open>Lines 194 to 196: what one event adds to the loop variables.\<close>

definition absorb :: "Collected \<Rightarrow> StreamEvent \<Rightarrow> Collected" where
  "absorb acc chunk =
     \<lparr>fullAnswer =
        (if truthy_str (ev_text chunk) then fullAnswer acc @ the (ev_text chunk) else fullAnswer acc),
      collectedSources =
        (case ev_sources chunk of
           None \<Rightarrow> collectedSources acc
         | Some v \<Rightarrow> if truthy v then v else collectedSources acc),
      collectedWebSources =
        (case ev_webSources chunk of
           None \<Rightarrow> collectedWebSources acc
         | Some ws \<Rightarrow> ws)\<rparr>"

text \<open>
  Lines 199 to 214: the updater that shows the progress in the last message, when
  that message is a model message with a structured content.
\<close>

definition show_progress :: "Collected \<Rightarrow> ChatSession \<Rightarrow> ChatSession" where
  "show_progress acc prev =
     (let msgs = messages prev
      in case at_index msgs (length msgs - 1) of
           None \<Rightarrow> prev\<lparr>messages := msgs\<rparr>
         | Some lastMsg \<Rightarrow>
             (case content lastMsg of
                Plain s \<Rightarrow> prev\<lparr>messages := msgs\<rparr>
              | Structured c \<Rightarrow>
                  if role lastMsg = RoleModel
                  then prev\<lparr>messages := msgs[length msgs - 1 :=
                         lastMsg\<lparr>content := Structured
                           \<lparr>answer = fullAnswer acc,
                            sources = (if length_truthy (collectedSources acc)
                                       then collectedSources acc else sources c),
                            webSources = (if collectedWebSources acc \<noteq> []
                                          then Some (collectedWebSources acc) else webSources c)\<rparr>\<rparr>]\<rparr>
                  else prev\<lparr>messages := msgs\<rparr>))"

text \<open>The \<open>for await\<close> loop over the events of the generator.\<close>

fun consume :: "Collected \<Rightarrow> ViewState \<Rightarrow> StreamEvent list \<Rightarrow> Collected \<times> ViewState" where
  "consume acc st [] = (acc, st)"
| "consume acc st (chunk # rest) =
     (let acc' = absorb acc chunk
      in consume acc' (st\<lparr>session := show_progress acc' (session st)\<rparr>) rest)"

definition contextNotes :: "ProcessedNoteWithId list \<Rightarrow> ChatSession \<Rightarrow> ProcessedNoteWithId list" where
  "contextNotes allNotes s = filter (\<lambda>note. note_id note \<in> set (noteIds s)) allNotes"

definition finalMessage :: "Collected \<Rightarrow> ChatMessage" where
  "finalMessage acc =
     \<lparr>role = RoleModel,
      content = Structured \<lparr>answer = fullAnswer acc, sources = collectedSources acc,
                            webSources = Some (collectedWebSources acc)\<rparr>\<rparr>"

definition handleSubmit ::
  "Backend \<Rightarrow> (string \<Rightarrow> json option) \<Rightarrow> ProcessedNoteWithId list \<Rightarrow> ViewState \<Rightarrow> Exchange"
where
  "handleSubmit ai parse allNotes st =
     (if isStreaming st \<or> trim (question st) = [] then \<lparr>final_state = st, effects = []\<rparr>
      else
        (let questionToAsk = question st;
             isFirstMessage = (length (messages (session st)) = 0);
             currentMessages = (messages (session st) @ [userMessage questionToAsk]) @ [placeholderMessage];
             st1 = st\<lparr>isStreaming := True, error := None\<rparr>;
             st2 = st1\<lparr>session := (session st1)\<lparr>messages := currentMessages\<rparr>, question := []\<rparr>;
             notes = contextNotes allNotes (session st);
             run = continueChatStream ai parse notes questionToAsk (messages (session st)) (useGoogleSearch st);
             called = StreamCalled notes questionToAsk (messages (session st)) (useGoogleSearch st);
             events = yielded (fst run);
             (acc, st3) = consume \<lparr>fullAnswer = [], collectedSources = JArr [], collectedWebSources = []\<rparr> st2 events
         in case snd run of
              Returned \<Rightarrow>
                (let finalMessages = currentMessages[length currentMessages - 1 := finalMessage acc];
                     finalSession = (session st)
                       \<lparr>title := (if isFirstMessage then take 50 questionToAsk else title (session st)),
                        messages := finalMessages\<rparr>
                 in \<lparr>final_state = st3\<lparr>session := finalSession, isStreaming := False\<rparr>,
                     effects = called # map EventReceived events @ [SessionUpdated finalSession]\<rparr>)
            | Threw e \<Rightarrow>
                \<lparr>final_state = st3
                   \<lparr>error := Some ''Failed to get an answer from the AI. The service may be unavailable. Please try again.'',
                    session := (session st3)\<lparr>messages := butlast (messages (session st3))\<rparr>,
                    isStreaming := False\<rparr>,
                 effects = called # map EventReceived events\<rparr>))"

text \<open>
  The sessions handed to \<open>onSessionUpdate\<close>, the calls of the streaming protocol,
  and the events taken from the generator, in an exchange.
\<close>

fun persisted :: "Effect list \<Rightarrow> ChatSession list" where
  "persisted [] = []"
| "persisted (SessionUpdated s # es) = s # persisted es"
| "persisted (e # es) = persisted es"

fun stream_calls :: "Effect list \<Rightarrow> Effect list" where
  "stream_calls [] = []"
| "stream_calls (StreamCalled ns q h g # es) = StreamCalled ns q h g # stream_calls es"
| "stream_calls (e # es) = stream_calls es"

fun received :: "Effect list \<Rightarrow> StreamEvent list" where
  "received [] = []"
| "received (EventReceived e # es) = e # received es"
| "received (e # es) = received es"

text \<open>
  What the events of a stream amount to: the texts in order, the last sources that
  are truthy (\<open>[]\<close> when there are none), the last list of web sources (\<open>[]\<close>
  when there is none).
\<close>

definition assembled_answer :: "StreamEvent list \<Rightarrow> string" where
  "assembled_answer events = concat (map (\<lambda>e. case ev_text e of None \<Rightarrow> [] | Some t \<Rightarrow> t) events)"

definition assembled_sources :: "StreamEvent list \<Rightarrow> json" where
  "assembled_sources events =
     (case filter truthy (List.map_filter ev_sources events) of [] \<Rightarrow> JArr [] | v # vs \<Rightarrow> last (v # vs))"

definition assembled_webSources :: "StreamEvent list \<Rightarrow> WebSource list" where
  "assembled_webSources events =
     (case List.map_filter ev_webSources events of [] \<Rightarrow> [] | w # ws \<Rightarrow> last (w # ws))"

text \<open>The message that replaces the placeholder when the events of a stream are assembled.\<close>

definition assembled_message :: "StreamEvent list \<Rightarrow> ChatMessage" where
  "assembled_message events =
     \<lparr>role = RoleModel,
      content = Structured \<lparr>answer = assembled_answer events, sources = assembled_sources events,
                            webSources = Some (assembled_webSources events)\<rparr>\<rparr>"

definition failure_notice :: string where
  "failure_notice = ''Failed to get an answer from the AI. The service may be unavailable. Please try again.''"

section \<open>Examples\<close>

text \<open>A string between double quotes.\<close>

definition quoted :: "string \<Rightarrow> string" where
  "quoted s = [CHR 0x22] @ s @ [CHR 0x22]"

text \<open>The backend response of the worked example, its two segments and the parsed citations.\<close>

definition sky_answer :: string where
  "sky_answer = ''The sky is blue.\<newline>''"

definition sky_payload :: string where
  "sky_payload =
     ''\<newline>[{'' @ quoted ''noteId'' @ '':'' @ quoted ''n1'' @ '','' @ quoted ''snippet'' @ '':'' @ quoted ''sky note'' @ ''}]''"

definition sky_response :: string where
  "sky_response = ''The sky is blue.\<newline>%%SOURCES_JSON%%'' @ sky_payload"

definition sky_sources :: json where
  "sky_sources = JArr [JObj [(''noteId'', JStr ''n1''), (''snippet'', JStr ''sky note'')]]"

text \<open>
  A backend that streams this response in two chunks, the separator cut in two, and a
  backend whose stream breaks after one chunk.
\<close>

definition sky_chunks :: "Chunk list" where
  "sky_chunks = [text_chunk ''The sky is blue.\<newline>%%SOURCES'', text_chunk (''_JSON%%'' @ sky_payload)]"

definition sky_backend :: Backend where
  "sky_backend request = completes sky_chunks"

definition broken_backend :: Backend where
  "broken_backend request = breaks_after [text_chunk ''The sky '']"

text \<open>A chunk without text whose first candidate carries one web reference.\<close>

definition web_ref :: "string \<Rightarrow> string option \<Rightarrow> Chunk" where
  "web_ref u t =
     \<lparr>chunk_text = None,
      candidates = Some [\<lparr>groundingMetadata =
        Some \<lparr>groundingChunks = Some [\<lparr>web = Some \<lparr>web_uri = u, web_title = t\<rparr>\<rparr>]\<rparr>\<rparr>]\<rparr>"

text \<open>A note with three open items due on 2 November 2026, and a note without items.\<close>

definition task :: "string \<Rightarrow> string option \<Rightarrow> ActionItem" where
  "task name t = \<lparr>item_text = name, completed = False, dueDate = ''2026-11-02'', time = t\<rparr>"

definition example_note :: ProcessedNoteWithId where
  "example_note =
     \<lparr>note_id = ''n1'', note_createdAt = ''2026-11-01T08:00:00Z'', refinedNote = ''# Errands\<newline>buy milk'',
      emotionAnalysis = \<lparr>summary = ''calm'', emotions = []\<rparr>,
      actionItems = [task ''call'' (Some ''09:00''), task ''shop'' None, task ''mail'' (Some ''08:00'')]\<rparr>"

definition other_note :: ProcessedNoteWithId where
  "other_note =
     \<lparr>note_id = ''n2'', note_createdAt = ''2026-10-30T18:00:00Z'', refinedNote = ''The sky was grey.'',
      emotionAnalysis = \<lparr>summary = ''flat'', emotions = []\<rparr>, actionItems = []\<rparr>"

definition example_today :: LocalDate where
  "example_today = \<lparr>fullYear = 2026, monthIndex = 10, dayOfMonth = 2\<rparr>"

text \<open>
  A session over the first note that has no messages yet, and the state of the view
  when a question has been typed.
\<close>

definition fresh_session :: ChatSession where
  "fresh_session =
     \<lparr>session_id = ''s1'', title = ''New Chat'', createdAt = ''2026-11-02T09:00:00Z'',
      noteIds = [''n1''], messages = []\<rparr>"

definition asking :: "string \<Rightarrow> ChatSession \<Rightarrow> bool \<Rightarrow> ViewState" where
  "asking q s search = \<lparr>session = s, question = q, isStreaming = False, error = None, useGoogleSearch = search\<rparr>"

definition long_question :: string where
  "long_question = ''Which of my notes mention the colour of the sky, and what do they say?''"

section \<open>Strings: occurrences and splitting\<close>

lemma str_includes_iff: "str_includes s pat \<longleftrightarrow> (\<exists>a b. s = a @ pat @ b)"
proof (induction s)
  case Nil
  then show ?case by auto
next
  case (Cons c cs)
  show ?case
  proof
    assume "str_includes (c # cs) pat"
    then consider "prefix pat (c # cs)" | "str_includes cs pat" by auto
    then show "\<exists>a b. c # cs = a @ pat @ b"
    proof cases
      case 1
      then obtain b where "c # cs = pat @ b" by (auto simp: prefix_def)
      then have "c # cs = [] @ pat @ b" by simp
      then show ?thesis by blast
    next
      case 2
      with Cons.IH obtain a b where "cs = a @ pat @ b" by blast
      then have "c # cs = (c # a) @ pat @ b" by simp
      then show ?thesis by blast
    qed
  next
    assume "\<exists>a b. c # cs = a @ pat @ b"
    then obtain a b where ab: "c # cs = a @ pat @ b" by blast
    show "str_includes (c # cs) pat"
    proof (cases a)
      case Nil
      with ab have "prefix pat (c # cs)" by (simp add: prefix_def)
      then show ?thesis by simp
    next
      case (Cons x a')
      with ab have "cs = a' @ pat @ b" by simp
      with Cons.IH have "str_includes cs pat" by blast
      then show ?thesis by simp
    qed
  qed
qed

lemma split_scan_absent:
  "\<not> str_includes s sep \<Longrightarrow> split_scan sep cur s = [cur @ s]"
  by (induction s arbitrary: cur) auto

text \<open>
  When the separator first occurs right behind \<open>a\<close> (no occurrence starts inside
  \<open>a\<close>), the scan cuts there and resumes behind the separator.
\<close>

lemma split_scan_first:
  assumes "sep \<noteq> []" and "\<not> str_includes (a @ butlast sep) sep"
  shows "split_scan sep cur (a @ sep @ r) = (cur @ a) # split_scan sep [] r"
  using assms
proof (induction a arbitrary: cur)
  case Nil
  then show ?case by (cases sep) auto
next
  case (Cons x a)
  from Cons.prems have np: "\<not> prefix sep (x # a @ butlast sep)"
    and ni: "\<not> str_includes (a @ butlast sep) sep"
    by auto
  have "\<not> prefix sep (x # a @ sep @ r)"
  proof
    assume "prefix sep (x # a @ sep @ r)"
    then obtain t where t: "x # a @ sep @ r = sep @ t" by (auto simp: prefix_def)
    have "length sep \<le> length (x # a @ butlast sep)"
      using Cons.prems(1) by (cases sep rule: rev_cases) auto
    moreover have "x # a @ sep @ r = (x # a @ butlast sep) @ (last sep # r)"
      using Cons.prems(1) by (simp add: append_butlast_last_id[symmetric] del: append_butlast_last_id)
    ultimately have "prefix sep (x # a @ butlast sep)" using t
      by (metis prefix_def prefix_length_prefix append.assoc)
    with np show False by blast
  qed
  with Cons.IH[OF Cons.prems(1) ni] show ?case by simp
qed

lemma separator_nonempty: "separator \<noteq> []"
  by (simp add: separator_def)

lemma short_excludes: "length s < length pat \<Longrightarrow> \<not> str_includes s pat"
  by (auto simp: str_includes_iff)

lemma prefix_of_longer:
  assumes "prefix pat (u @ pat @ r)" and "u \<noteq> []"
  shows "prefix pat (u @ butlast pat)"
proof (cases "pat = []")
  case True
  then show ?thesis by simp
next
  case False
  then have "u @ pat @ r = (u @ butlast pat) @ (last pat # r)"
    by (simp add: append_butlast_last_id[symmetric] del: append_butlast_last_id)
  moreover have "length pat \<le> length (u @ butlast pat)"
    using assms(2) False by (cases u) auto
  ultimately show ?thesis
    using assms(1) by (metis prefix_length_prefix prefixI)
qed

text \<open>A text that contains the pattern has a first occurrence of it.\<close>

lemma first_occurrence:
  assumes "pat \<noteq> []" and "str_includes s pat"
  shows "\<exists>a r. s = a @ pat @ r \<and> \<not> str_includes (a @ butlast pat) pat"
  using assms(2)
proof (induction s)
  case Nil
  with assms(1) show ?case by simp
next
  case (Cons c cs)
  show ?case
  proof (cases "prefix pat (c # cs)")
    case True
    then obtain r where "c # cs = [] @ pat @ r" by (auto simp: prefix_def)
    moreover have "\<not> str_includes ([] @ butlast pat) pat"
      using assms(1) by (simp add: short_excludes)
    ultimately show ?thesis by blast
  next
    case False
    with Cons.prems have "str_includes cs pat" by simp
    with Cons.IH obtain a r where ar: "cs = a @ pat @ r" "\<not> str_includes (a @ butlast pat) pat"
      by blast
    have "\<not> prefix pat (c # a @ butlast pat)"
    proof
      assume "prefix pat (c # a @ butlast pat)"
      moreover have "c # cs = (c # a @ butlast pat) @ (last pat # r)"
        using ar(1) assms(1) by (simp add: append_butlast_last_id[symmetric] del: append_butlast_last_id)
      then have "prefix (c # a @ butlast pat) (c # cs)"
        by (rule prefixI)
      ultimately have "prefix pat (c # cs)" by (rule prefix_order.trans)
      with False show False by blast
    qed
    with ar have "c # cs = (c # a) @ pat @ r \<and> \<not> str_includes ((c # a) @ butlast pat) pat"
      by simp
    then show ?thesis by blast
  qed
qed

text \<open>
  Behind the first occurrence there is another one as soon as the text has two
  occurrences that do not overlap.
\<close>

lemma second_occurrence:
  assumes "pat \<noteq> []"
    and "a @ pat @ r = x @ pat @ y @ pat @ z"
    and "\<not> str_includes (a @ butlast pat) pat"
  shows "str_includes r pat"
proof -
  from append_eq_append_conv2[THEN iffD1, OF assms(2)] obtain u where
    u: "a = x @ u \<and> u @ pat @ r = pat @ y @ pat @ z \<or> a @ u = x \<and> pat @ r = u @ pat @ y @ pat @ z"
    by blast
  have "(\<exists>u. a = x @ u \<and> u \<noteq> [] \<and> u @ pat @ r = pat @ y @ pat @ z)
      \<or> (\<exists>u. a @ u = x \<and> pat @ r = u @ pat @ y @ pat @ z)"
  proof (cases "u = []")
    case True
    with u have "a @ [] = x \<and> pat @ r = [] @ pat @ y @ pat @ z" by auto
    then show ?thesis by blast
  next
    case False
    with u show ?thesis by blast
  qed
  then consider u where "a = x @ u" "u \<noteq> []" "u @ pat @ r = pat @ y @ pat @ z"
    | u where "a @ u = x" "pat @ r = u @ pat @ y @ pat @ z"
    by blast
  then show ?thesis
  proof cases
    case 1
    from 1(3) have "prefix pat (u @ pat @ r)" by (simp add: prefix_def)
    from prefix_of_longer[OF this 1(2)] obtain t where "u @ butlast pat = pat @ t"
      by (auto simp: prefix_def)
    with 1(1) have "a @ butlast pat = x @ pat @ t" by simp
    then have "str_includes (a @ butlast pat) pat"
      unfolding str_includes_iff by blast
    with assms(3) show ?thesis by blast
  next
    case 2
    have "r = drop (length pat) (pat @ r)" by simp
    also have "\<dots> = drop (length pat) ((u @ pat @ y) @ (pat @ z))"
      unfolding 2(2) by simp
    also have "\<dots> = drop (length pat) (u @ pat @ y) @ pat @ z"
      by simp
    finally show ?thesis
      unfolding str_includes_iff by blast
  qed
qed

lemma two_occurrences_segments:
  assumes "s = x @ separator @ y @ separator @ z"
  shows "\<exists>a b c. s = a @ separator @ b @ separator @ c
           \<and> \<not> str_includes (a @ butlast separator) separator
           \<and> \<not> str_includes (b @ butlast separator) separator"
proof -
  have "str_includes s separator" unfolding assms str_includes_iff by blast
  from first_occurrence[OF separator_nonempty this] obtain a r
    where a: "s = a @ separator @ r" "\<not> str_includes (a @ butlast separator) separator" by blast
  from a(1) assms have "a @ separator @ r = x @ separator @ y @ separator @ z" by simp
  from second_occurrence[OF separator_nonempty this a(2)] have "str_includes r separator" .
  from first_occurrence[OF separator_nonempty this] obtain b c
    where "r = b @ separator @ c" "\<not> str_includes (b @ butlast separator) separator" by blast
  with a show ?thesis by blast
qed

lemma separator_segments:
  assumes "str_includes s separator"
  shows "\<exists>a j t. s = a @ separator @ j @ t
           \<and> \<not> str_includes (a @ butlast separator) separator
           \<and> ((t = [] \<and> \<not> str_includes j separator) \<or>
               (prefix separator t \<and> \<not> str_includes (j @ butlast separator) separator))"
proof -
  from first_occurrence[OF separator_nonempty assms] obtain a r
    where a: "s = a @ separator @ r" "\<not> str_includes (a @ butlast separator) separator" by blast
  show ?thesis
  proof (cases "str_includes r separator")
    case False
    with a have "s = a @ separator @ r @ [] \<and> \<not> str_includes (a @ butlast separator) separator
       \<and> ([] = ([]::string) \<and> \<not> str_includes r separator)" by simp
    then show ?thesis by blast
  next
    case True
    from first_occurrence[OF separator_nonempty this] obtain j c
      where "r = j @ separator @ c" "\<not> str_includes (j @ butlast separator) separator" by blast
    with a have "s = a @ separator @ j @ (separator @ c) \<and> \<not> str_includes (a @ butlast separator) separator
       \<and> prefix separator (separator @ c) \<and> \<not> str_includes (j @ butlast separator) separator" by simp
    then show ?thesis by blast
  qed
qed

section \<open>The grounded-only mode\<close>

lemma buffer_chunks_append:
  "buffer_chunks acc cs = acc @ streamed_text cs"
  by (induction cs arbitrary: acc) (auto simp: streamed_text_def split: option.splits)

lemma buffer_chunks_streamed_text: "buffer_chunks [] cs = streamed_text cs"
  by (simp add: buffer_chunks_append)

lemma yielded_append: "yielded (xs @ ys) = yielded xs @ yielded ys"
  by (induction xs rule: yielded.induct) auto

lemma yielded_pulls: "yielded (map Pulled cs) = []"
  by (induction cs) auto

lemma streamed_text_two: "streamed_text [text_chunk s, text_chunk t] = s @ t"
  by (simp add: streamed_text_def text_chunk_def)

text \<open>
  C3. In the grounded-only mode, when the backend stream completes and the buffered
  text (the concatenation of the chunk texts) nowhere contains the separator, the
  generator pulls every chunk, then yields exactly one event: the text event carrying
  the whole buffered text. No event with sources is yielded, and it returns normally.
\<close>

theorem no_separator_single_text_event:
  assumes "ai (notes_request notes q history) = completes chunks"
    and "\<not> (\<exists>a b. streamed_text chunks = a @ separator @ b)"
  shows "continueChatStream ai parse notes q history False =
           (map Pulled chunks @ [Yielded (text_event (Some (streamed_text chunks)))], Returned)
         \<and> yielded (fst (continueChatStream ai parse notes q history False)) =
             [\<lparr>ev_text = Some (streamed_text chunks), ev_sources = None, ev_webSources = None\<rparr>]"
proof -
  from assms(2) have "\<not> str_includes (streamed_text chunks) separator"
    by (simp add: str_includes_iff)
  with assms(1) show ?thesis
    by (simp add: continueChatStream_def notes_stream_def completes_def
        buffer_chunks_streamed_text yielded_append yielded_pulls text_event_def)
qed

theorem no_separator_single_text_event_witness:
  "continueChatStream (\<lambda>r. completes [text_chunk ''I could not find an answer '', text_chunk ''in the selected notes.''])
      JSON_parse [] ''why?'' [] False =
     ([Pulled (text_chunk ''I could not find an answer ''), Pulled (text_chunk ''in the selected notes.''),
       Yielded (text_event (Some ''I could not find an answer in the selected notes.''))], Returned)"
proof -
  let ?cs = "[text_chunk ''I could not find an answer '', text_chunk ''in the selected notes.'']"
  have st: "streamed_text ?cs = ''I could not find an answer in the selected notes.''"
    by (simp add: streamed_text_two)
  have "\<not> str_includes (streamed_text ?cs) separator"
    unfolding st by (simp add: separator_def)
  then have h: "\<not> (\<exists>a b. streamed_text ?cs = a @ separator @ b)"
    by (simp add: str_includes_iff)
  from no_separator_single_text_event[of "\<lambda>r. completes ?cs" "[]" "''why?''" "[]" ?cs JSON_parse, OF refl h]
  show ?thesis by (simp add: st)
qed

lemma at_index_simps [simp]:
  "at_index (x # xs) 0 = Some x"
  "at_index (x # y # ys) (Suc 0) = Some y"
  "at_index [] i = None"
  by (simp_all add: at_index_def)

text \<open>
  The first two parts of the split, when the buffered text is \<open>a\<close>, the separator,
  \<open>j\<close> and a rest \<open>t\<close>, where the separator first occurs behind \<open>a\<close> and \<open>j\<close> runs
  to the end of the text or to the next occurrence of the separator.
\<close>

lemma str_split_segments:
  assumes "\<not> str_includes (a @ butlast separator) separator"
    and "(t = [] \<and> \<not> str_includes j separator) \<or>
         (prefix separator t \<and> \<not> str_includes (j @ butlast separator) separator)"
  shows "\<exists>more. str_split (a @ separator @ j @ t) separator = a # j # more"
proof -
  have first: "split_scan separator [] (a @ separator @ j @ t) = a # split_scan separator [] (j @ t)"
    using split_scan_first[OF separator_nonempty assms(1), of "[]" "j @ t"] by simp
  from assms(2) have "\<exists>more. split_scan separator [] (j @ t) = j # more"
  proof
    assume "t = [] \<and> \<not> str_includes j separator"
    then show ?thesis by (simp add: split_scan_absent)
  next
    assume h: "prefix separator t \<and> \<not> str_includes (j @ butlast separator) separator"
    then obtain c where "t = separator @ c" by (auto simp: prefix_def)
    with h split_scan_first[OF separator_nonempty, of j "[]" c] show ?thesis by simp
  qed
  with first show ?thesis by (auto simp: str_split_def separator_nonempty)
qed

lemma notes_stream_segments:
  assumes "streamed_text chunks = a @ separator @ j @ t"
    and "\<not> str_includes (a @ butlast separator) separator"
    and "(t = [] \<and> \<not> str_includes j separator) \<or>
         (prefix separator t \<and> \<not> str_includes (j @ butlast separator) separator)"
  shows "notes_stream parse (completes chunks) =
           (map Pulled chunks
            @ Yielded (text_event (Some a))
            # (case parse j of None \<Rightarrow> [] | Some v \<Rightarrow> [Yielded (sources_event v)]), Returned)"
proof -
  have inc: "str_includes (streamed_text chunks) separator"
    unfolding assms(1) str_includes_iff by blast
  from str_split_segments[OF assms(2,3)] obtain more
    where "str_split (streamed_text chunks) separator = a # j # more"
    unfolding assms(1) by blast
  with inc show ?thesis
    by (simp add: notes_stream_def completes_def buffer_chunks_streamed_text parse_part_def Let_def
        split: option.splits)
qed

lemma sky_answer_first: "\<not> str_includes (sky_answer @ butlast separator) separator"
  by (simp add: sky_answer_def separator_def)

lemma sky_payload_last: "\<not> str_includes sky_payload separator"
  by (simp add: sky_payload_def separator_def quoted_def)

lemma sky_response_parts: "sky_response = sky_answer @ separator @ sky_payload @ []"
  by (simp add: sky_response_def sky_answer_def separator_def)

lemma JSON_parse_sky_payload: "JSON_parse sky_payload = Some sky_sources"
  unfolding sky_sources_def by code_simp

text \<open>
  C2. In the grounded-only mode, when the backend stream completes and the chunk
  texts concatenate to
  \<open>The sky is blue.\n%%SOURCES_JSON%%\n[{"noteId":"n1","snippet":"sky note"}]\<close>
  (\<open>sky_response\<close>), and \<open>JSON.parse\<close> reads the text behind the separator as the
  array \<open>[{noteId: "n1", snippet: "sky note"}]\<close>, the run of the generator is: every
  chunk pulled, then the text event \<open>The sky is blue.\n\<close>, then the sources event
  with that array, then a normal return. So exactly two events are yielded, in this
  order, and none before the last chunk has been pulled, however the backend cut the
  text into chunks.
\<close>

theorem sky_example_text_then_sources:
  assumes "ai (notes_request notes q history) = completes chunks"
    and "streamed_text chunks = sky_response"
    and "parse sky_payload = Some sky_sources"
  shows "continueChatStream ai parse notes q history False =
           (map Pulled chunks
            @ [Yielded \<lparr>ev_text = Some ''The sky is blue.\<newline>'', ev_sources = None, ev_webSources = None\<rparr>,
               Yielded \<lparr>ev_text = None,
                        ev_sources = Some (JArr [JObj [(''noteId'', JStr ''n1''), (''snippet'', JStr ''sky note'')]]),
                        ev_webSources = None\<rparr>],
            Returned)"
proof -
  have "streamed_text chunks = sky_answer @ separator @ sky_payload @ []"
    using assms(2) by (simp add: sky_response_parts)
  from notes_stream_segments[OF this sky_answer_first, of parse] sky_payload_last assms(1,3)
  show ?thesis
    by (simp add: continueChatStream_def text_event_def sources_event_def sky_answer_def
        sky_sources_def)
qed

text \<open>The separator itself arrives split over two chunks, and a third chunk has no text.\<close>

theorem sky_example_text_then_sources_witness:
  "continueChatStream
     (\<lambda>r. completes [text_chunk ''The sky is blue.\<newline>%%SOURCES'',
                     \<lparr>chunk_text = None, candidates = None\<rparr>,
                     text_chunk (''_JSON%%'' @ sky_payload)])
     JSON_parse [] ''What colour is the sky?'' [] False =
   ([Pulled (text_chunk ''The sky is blue.\<newline>%%SOURCES''),
     Pulled \<lparr>chunk_text = None, candidates = None\<rparr>,
     Pulled (text_chunk (''_JSON%%'' @ sky_payload)),
     Yielded \<lparr>ev_text = Some ''The sky is blue.\<newline>'', ev_sources = None, ev_webSources = None\<rparr>,
     Yielded \<lparr>ev_text = None,
              ev_sources = Some (JArr [JObj [(''noteId'', JStr ''n1''), (''snippet'', JStr ''sky note'')]]),
              ev_webSources = None\<rparr>],
    Returned)"
proof -
  let ?cs = "[text_chunk ''The sky is blue.\<newline>%%SOURCES'',
              \<lparr>chunk_text = None, candidates = None\<rparr>,
              text_chunk (''_JSON%%'' @ sky_payload)]"
  have st: "streamed_text ?cs = sky_response"
    by (simp add: streamed_text_def text_chunk_def sky_response_def)
  from sky_example_text_then_sources[of "\<lambda>r. completes ?cs" "[]" "''What colour is the sky?''" "[]" ?cs JSON_parse,
      OF refl st JSON_parse_sky_payload]
  show ?thesis by simp
qed

text \<open>
  C4. In the grounded-only mode, let the backend stream complete with a buffered text
  that contains the separator: \<open>a\<close> is the text before its first occurrence and \<open>j\<close>
  the segment behind it, up to the end of the text or to the next occurrence (every
  text that contains the separator is of this form, \<open>separator_segments\<close>). When
  \<open>JSON.parse\<close> rejects \<open>j\<close>, the generator still yields the text event with \<open>a\<close>,
  yields nothing else (no sources event), and returns normally instead of throwing.
\<close>

theorem malformed_payload_keeps_text:
  assumes "ai (notes_request notes q history) = completes chunks"
    and "streamed_text chunks = a @ separator @ j @ t"
    and "\<not> starts_within separator a"
    and "(t = [] \<and> \<not> str_includes j separator) \<or>
         (prefix separator t \<and> \<not> starts_within separator j)"
    and "parse j = None"
  shows "continueChatStream ai parse notes q history False =
           (map Pulled chunks @ [Yielded (text_event (Some a))], Returned)
         \<and> yielded (fst (continueChatStream ai parse notes q history False)) =
             [\<lparr>ev_text = Some a, ev_sources = None, ev_webSources = None\<rparr>]"
  using notes_stream_segments[OF assms(2), of parse] assms(1,3,4,5)
  by (simp add: continueChatStream_def yielded_append yielded_pulls text_event_def starts_within_def)

theorem malformed_payload_keeps_text_witness:
  "continueChatStream
     (\<lambda>r. completes [text_chunk ''It rained.\<newline>%%SOURCES_JSON%%'', text_chunk ''[{noteId: n1''])
     JSON_parse [] ''Did it rain?'' [] False =
   ([Pulled (text_chunk ''It rained.\<newline>%%SOURCES_JSON%%''), Pulled (text_chunk ''[{noteId: n1''),
     Yielded (text_event (Some ''It rained.\<newline>''))], Returned)"
proof -
  let ?cs = "[text_chunk ''It rained.\<newline>%%SOURCES_JSON%%'', text_chunk ''[{noteId: n1'']"
  have st: "streamed_text ?cs = ''It rained.\<newline>'' @ separator @ ''[{noteId: n1'' @ []"
    by (simp add: streamed_text_two separator_def)
  have first: "\<not> starts_within separator ''It rained.\<newline>''"
    by (simp add: starts_within_def separator_def)
  have rest: "([] = ([] :: string) \<and> \<not> str_includes ''[{noteId: n1'' separator) \<or>
      (prefix separator [] \<and> \<not> starts_within separator ''[{noteId: n1'')"
    by (simp add: separator_def)
  have bad: "JSON_parse ''[{noteId: n1'' = None"
    by code_simp
  from malformed_payload_keeps_text[of "\<lambda>r. completes ?cs" "[]" "''Did it rain?''" "[]" ?cs
      "''It rained.\<newline>''" "''[{noteId: n1''" "[]" JSON_parse, OF refl st first rest bad]
  show ?thesis by simp
qed

text \<open>
  C10. In the grounded-only mode, let the backend stream complete with a buffered text
  in which the separator occurs twice or more (two occurrences that do not overlap,
  as \<open>split\<close> counts them). Then the text is \<open>a\<close>, the separator, \<open>b\<close>, the
  separator, and a rest \<open>c\<close>, where the separator behind \<open>a\<close> is its first occurrence
  in the text and the separator behind \<open>b\<close> the next one behind that; the answer
  yielded is \<open>a\<close> alone, \<open>JSON.parse\<close> is applied to \<open>b\<close> alone, and \<open>c\<close>, whatever
  it holds, has no part in the run: it is dropped without an error.
\<close>

theorem repeated_separator_uses_first_two_segments:
  assumes "ai (notes_request notes q history) = completes chunks"
    and "streamed_text chunks = x @ separator @ y @ separator @ z"
  shows "\<exists>a b c. streamed_text chunks = a @ separator @ b @ separator @ c
           \<and> \<not> starts_within separator a
           \<and> \<not> starts_within separator b
           \<and> continueChatStream ai parse notes q history False =
               (map Pulled chunks
                @ Yielded (text_event (Some a))
                # (case parse b of None \<Rightarrow> [] | Some v \<Rightarrow> [Yielded (sources_event v)]), Returned)"
proof -
  from two_occurrences_segments[OF assms(2)] obtain a b c
    where abc: "streamed_text chunks = a @ separator @ b @ separator @ c"
      "\<not> str_includes (a @ butlast separator) separator"
      "\<not> str_includes (b @ butlast separator) separator"
    by blast
  have "(separator @ c = [] \<and> \<not> str_includes b separator) \<or>
        (prefix separator (separator @ c) \<and> \<not> str_includes (b @ butlast separator) separator)"
    using abc(3) by simp
  from notes_stream_segments[OF abc(1,2) this, of parse] assms(1)
  have "continueChatStream ai parse notes q history False =
               (map Pulled chunks
                @ Yielded (text_event (Some a))
                # (case parse b of None \<Rightarrow> [] | Some v \<Rightarrow> [Yielded (sources_event v)]), Returned)"
    by (simp add: continueChatStream_def)
  with abc show ?thesis unfolding starts_within_def by blast
qed

text \<open>
  Two chunks that concatenate to \<open>One.%%SOURCES_JSON%%[]%%SOURCES_JSON%%{} and more text\<close>:
  the answer is \<open>One.\<close>, the sources are the empty array, the rest is dropped.
\<close>

theorem repeated_separator_uses_first_two_segments_witness:
  "(\<exists>a b c. streamed_text [text_chunk ''One.%%SOURCES_JSON%%[]%%SOURCES_JSON%%'', text_chunk ''{} and more text'']
              = a @ separator @ b @ separator @ c
           \<and> \<not> starts_within separator a
           \<and> \<not> starts_within separator b
           \<and> continueChatStream
                 (\<lambda>r. completes [text_chunk ''One.%%SOURCES_JSON%%[]%%SOURCES_JSON%%'', text_chunk ''{} and more text''])
                 JSON_parse [] ''How many?'' [] False =
               (map Pulled [text_chunk ''One.%%SOURCES_JSON%%[]%%SOURCES_JSON%%'', text_chunk ''{} and more text'']
                @ Yielded (text_event (Some a))
                # (case JSON_parse b of None \<Rightarrow> [] | Some v \<Rightarrow> [Yielded (sources_event v)]), Returned))
   \<and> continueChatStream
        (\<lambda>r. completes [text_chunk ''One.%%SOURCES_JSON%%[]%%SOURCES_JSON%%'', text_chunk ''{} and more text''])
        JSON_parse [] ''How many?'' [] False =
      ([Pulled (text_chunk ''One.%%SOURCES_JSON%%[]%%SOURCES_JSON%%''), Pulled (text_chunk ''{} and more text''),
        Yielded (text_event (Some ''One.'')), Yielded (sources_event (JArr []))], Returned)"
proof -
  let ?cs = "[text_chunk ''One.%%SOURCES_JSON%%[]%%SOURCES_JSON%%'', text_chunk ''{} and more text'']"
  have st: "streamed_text ?cs = ''One.'' @ separator @ ''[]'' @ separator @ ''{} and more text''"
    by (simp add: streamed_text_two separator_def)
  note general = repeated_separator_uses_first_two_segments[of "\<lambda>r. completes ?cs" "[]" "''How many?''" "[]" ?cs
      "''One.''" "''[]''" "''{} and more text''" JSON_parse, OF refl st]
  have first: "\<not> str_includes (''One.'' @ butlast separator) separator"
    by (simp add: separator_def)
  have second: "(separator @ ''{} and more text'' = [] \<and> \<not> str_includes ''[]'' separator) \<or>
      (prefix separator (separator @ ''{} and more text'') \<and> \<not> str_includes (''[]'' @ butlast separator) separator)"
    by (simp add: separator_def)
  have ok: "JSON_parse ''[]'' = Some (JArr [])"
    by code_simp
  from notes_stream_segments[OF st first second, of JSON_parse]
  have "continueChatStream (\<lambda>r. completes ?cs) JSON_parse [] ''How many?'' [] False =
      ([Pulled (text_chunk ''One.%%SOURCES_JSON%%[]%%SOURCES_JSON%%''), Pulled (text_chunk ''{} and more text''),
        Yielded (text_event (Some ''One.'')), Yielded (sources_event (JArr []))], Returned)"
    by (simp add: continueChatStream_def ok)
  with general show ?thesis by blast
qed

section \<open>The search-augmented mode\<close>

lemma Map_set_keys:
  "map fst (Map_set k v m) = (if k \<in> fst ` set m then map fst m else map fst m @ [k])"
  by (induction m) (force simp: image_iff)+

lemma Map_set_map_of: "map_of (Map_set k v m) = (map_of m)(k \<mapsto> v)"
  by (induction m) (auto)

lemma Map_new_snoc: "Map_new (es @ [(k, v)]) = Map_set k v (Map_new es)"
  by (simp add: Map_new_def)

lemma Map_new_keys: "map fst (Map_new es) = rev (remdups (rev (map fst es)))"
proof (induction es rule: rev_induct)
  case Nil
  then show ?case by (simp add: Map_new_def)
next
  case (snoc e es)
  obtain k v where e: "e = (k, v)" by (cases e)
  have "fst ` set (Map_new es) = fst ` set es"
    using snoc.IH by (metis list.set_map set_remdups set_rev)
  then show ?case
    using snoc.IH by (auto simp: e Map_new_snoc Map_set_keys)
qed

lemma Map_new_distinct: "distinct (map fst (Map_new es))"
  by (simp add: Map_new_keys)

lemma Map_new_map_of: "map_of (Map_new es) = map_of (rev es)"
proof (induction es rule: rev_induct)
  case Nil
  then show ?case by (simp add: Map_new_def)
next
  case (snoc e es)
  obtain k v where e: "e = (k, v)" by (cases e)
  show ?case using snoc.IH by (simp add: e Map_new_snoc Map_set_map_of)
qed

lemma map_of_rev_keyed:
  "map_of (rev (map (\<lambda>x. (f x, x)) xs)) k = Some w \<Longrightarrow> w = last (filter (\<lambda>x. f x = k) xs) \<and> f w = k \<and> w \<in> set xs"
proof (induction xs rule: rev_induct)
  case Nil
  then show ?case by simp
next
  case (snoc x xs)
  then show ?case by (auto split: if_splits)
qed

lemma uniqueWebSources_last:
  assumes "w \<in> set (uniqueWebSources ws)"
  shows "w = last (filter (\<lambda>x. ws_uri x = ws_uri w) ws) \<and> w \<in> set ws"
proof -
  let ?es = "map (\<lambda>item. (ws_uri item, item)) ws"
  from assms obtain k where "(k, w) \<in> set (Map_new ?es)"
    by (auto simp: uniqueWebSources_def Map_values_def)
  with Map_new_distinct[of ?es] have "map_of (Map_new ?es) k = Some w" by simp
  then have "map_of (rev ?es) k = Some w" by (simp add: Map_new_map_of)
  from map_of_rev_keyed[OF this] show ?thesis by auto
qed

lemma uniqueWebSources_uris:
  "map ws_uri (uniqueWebSources ws) = rev (remdups (rev (map ws_uri ws)))"
proof -
  let ?es = "map (\<lambda>item. (ws_uri item, item)) ws"
  have "\<forall>(k, w) \<in> set (Map_new ?es). ws_uri w = k"
  proof (clarify)
    fix k w assume "(k, w) \<in> set (Map_new ?es)"
    with Map_new_distinct[of ?es] have "map_of (Map_new ?es) k = Some w" by simp
    then have "map_of (rev ?es) k = Some w" by (simp add: Map_new_map_of)
    from map_of_rev_keyed[OF this] show "ws_uri w = k" by blast
  qed
  then have "map ws_uri (map snd (Map_new ?es)) = map fst (Map_new ?es)"
    by (auto simp: case_prod_beta)
  then show ?thesis
    by (simp add: uniqueWebSources_def Map_values_def Map_new_keys comp_def)
qed


lemma uniqueWebSources_empty: "uniqueWebSources ws = [] \<longleftrightarrow> ws = []"
proof -
  have "map ws_uri (uniqueWebSources ws) = [] \<longleftrightarrow> map ws_uri ws = []"
    unfolding uniqueWebSources_uris by (metis remdups_eq_nil_iff rev_is_Nil_conv)
  then show ?thesis by simp
qed

lemma web_source_fallback:
  "web_source g = \<lparr>ws_uri = web_uri g,
     ws_title = (case web_title g of None \<Rightarrow> web_uri g | Some t \<Rightarrow> if t = [] then web_uri g else t)\<rparr>"
  by (cases "web_title g") (simp_all add: web_source_def)

lemma grounding_webSources_from:
  "w \<in> set (grounding_webSources gs) \<Longrightarrow> \<exists>g. w = web_source g"
  by (induction gs) (auto split: option.splits)

lemma collect_webSources_from:
  "w \<in> set (collect_webSources chunks) \<Longrightarrow> \<exists>g. w = web_source g"
  by (induction chunks) (auto split: option.splits dest: grounding_webSources_from)

lemma collect_webSources_fallback:
  "w \<in> set (collect_webSources chunks) \<Longrightarrow>
   \<exists>g :: GroundingWeb. w = \<lparr>ws_uri = web_uri g,
             ws_title = (case web_title g of None \<Rightarrow> web_uri g | Some t \<Rightarrow> if t = [] then web_uri g else t)\<rparr>"
  proof -
  assume "w \<in> set (collect_webSources chunks)"
  then obtain g where "w = web_source g" using collect_webSources_from by blast
  then have "w = \<lparr>ws_uri = web_uri g,
             ws_title = (case web_title g of None \<Rightarrow> web_uri g | Some t \<Rightarrow> if t = [] then web_uri g else t)\<rparr>"
    by (simp only: web_source_fallback)
  then show ?thesis by (rule exI)
qed


lemma forward_chunks_no_webSources:
  "filter (\<lambda>e. ev_webSources e \<noteq> None) (yielded (forward_chunks chunks)) = []"
  by (induction chunks) (auto simp: text_event_def)

text \<open>
  C5 as stated fails: of two references to the same uri the second one is kept, not
  the first. With titles \<open>A\<close> and then the empty title for \<open>https://a.com\<close>, the one
  event yielded carries the uri as the title.
\<close>

theorem first_title_not_kept_counterexample:
  "yielded (fst (continueChatStream
       (\<lambda>r. completes [web_ref ''https://a.com'' (Some ''A''), web_ref ''https://a.com'' (Some [])])
       JSON_parse [] ''What is new?'' [] True))
     = [webSources_event [\<lparr>ws_uri = ''https://a.com'', ws_title = ''https://a.com''\<rparr>]]
   \<and> uniqueWebSources (collect_webSources [web_ref ''https://a.com'' (Some ''A''), web_ref ''https://a.com'' (Some [])])
     \<noteq> [\<lparr>ws_uri = ''https://a.com'', ws_title = ''A''\<rparr>]"
  by (simp add: continueChatStream_def search_stream_def completes_def web_ref_def
      chunk_groundingChunks_def web_source_def uniqueWebSources_def Map_new_def Map_values_def
      Let_def)

text \<open>
  C5, amended. In the search-augmented mode, when the backend stream completes, the
  web citations collected from the chunks (an absent or empty title replaced by the
  uri) are deduplicated by uri: every uri is kept once, and the entry kept for it is
  the last one collected with that uri. The run is the forwarded chunks followed, when
  the deduplicated list is not empty, by one event carrying that list; no earlier
  event carries web citations.
\<close>

theorem web_sources_deduplicated_last_wins:
  assumes "ai (search_request notes q history) = completes chunks"
  shows "let collected = collect_webSources chunks; unique = uniqueWebSources collected
         in (\<forall>w \<in> set collected. \<exists>g :: GroundingWeb. w = \<lparr>ws_uri = web_uri g,
                ws_title = (case web_title g of None \<Rightarrow> web_uri g | Some t \<Rightarrow> if t = [] then web_uri g else t)\<rparr>)
          \<and> distinct (map ws_uri unique)
          \<and> set (map ws_uri unique) = set (map ws_uri collected)
          \<and> (\<forall>w \<in> set unique. w = last (filter (\<lambda>x. ws_uri x = ws_uri w) collected))
          \<and> continueChatStream ai parse notes q history True =
              (forward_chunks chunks @ (if unique = [] then [] else [Yielded (webSources_event unique)]), Returned)
          \<and> filter (\<lambda>e. ev_webSources e \<noteq> None) (yielded (forward_chunks chunks)) = []"
proof -
  let ?collected = "collect_webSources chunks"
  let ?unique = "uniqueWebSources ?collected"
  have 1: "\<forall>w \<in> set ?collected. \<exists>g :: GroundingWeb. w = \<lparr>ws_uri = web_uri g,
                ws_title = (case web_title g of None \<Rightarrow> web_uri g | Some t \<Rightarrow> if t = [] then web_uri g else t)\<rparr>"
    using collect_webSources_fallback by blast
  have 2: "distinct (map ws_uri ?unique)"
    by (simp add: uniqueWebSources_uris)
  have 3: "set (map ws_uri ?unique) = set (map ws_uri ?collected)"
    by (simp add: uniqueWebSources_uris)
  have 4: "\<forall>w \<in> set ?unique. w = last (filter (\<lambda>x. ws_uri x = ws_uri w) ?collected)"
    using uniqueWebSources_last by blast
  have 5: "continueChatStream ai parse notes q history True =
      (forward_chunks chunks @ (if ?unique = [] then [] else [Yielded (webSources_event ?unique)]), Returned)"
    using assms by (simp add: continueChatStream_def search_stream_def completes_def Let_def)
  from 1 2 3 4 5 forward_chunks_no_webSources[of chunks] show ?thesis
    unfolding Let_def by blast
qed


theorem web_sources_deduplicated_last_wins_witness:
  "continueChatStream
     (\<lambda>r. completes [web_ref ''https://a.com'' (Some ''A''), web_ref ''https://a.com'' (Some [])])
     JSON_parse [] ''What is new?'' [] True =
   ([Pulled (web_ref ''https://a.com'' (Some ''A'')), Pulled (web_ref ''https://a.com'' (Some [])),
     Yielded (webSources_event [\<lparr>ws_uri = ''https://a.com'', ws_title = ''https://a.com''\<rparr>])], Returned)
   \<and> last (filter (\<lambda>x. ws_uri x = ''https://a.com'')
        [\<lparr>ws_uri = ''https://a.com'', ws_title = ''A''\<rparr>, \<lparr>ws_uri = ''https://a.com'', ws_title = ''https://a.com''\<rparr>])
      = \<lparr>ws_uri = ''https://a.com'', ws_title = ''https://a.com''\<rparr>"
proof -
  let ?cs = "[web_ref ''https://a.com'' (Some ''A''), web_ref ''https://a.com'' (Some [])]"
  have c: "collect_webSources ?cs =
      [\<lparr>ws_uri = ''https://a.com'', ws_title = ''A''\<rparr>, \<lparr>ws_uri = ''https://a.com'', ws_title = ''https://a.com''\<rparr>]"
    by (simp add: web_ref_def chunk_groundingChunks_def web_source_def)
  have u: "uniqueWebSources
      [\<lparr>ws_uri = ''https://a.com'', ws_title = ''A''\<rparr>, \<lparr>ws_uri = ''https://a.com'', ws_title = ''https://a.com''\<rparr>]
      = [\<lparr>ws_uri = ''https://a.com'', ws_title = ''https://a.com''\<rparr>]"
    by (simp add: uniqueWebSources_def Map_new_def Map_values_def)
  note th = web_sources_deduplicated_last_wins[of "\<lambda>r. completes ?cs" "[]" "''What is new?''" "[]" ?cs JSON_parse,
      OF refl, unfolded Let_def c u]
  note kept = th[THEN conjunct2, THEN conjunct2, THEN conjunct2, THEN conjunct1]
  note run = th[THEN conjunct2, THEN conjunct2, THEN conjunct2, THEN conjunct2, THEN conjunct1]
  from run have "continueChatStream (\<lambda>r. completes ?cs) JSON_parse [] ''What is new?'' [] True =
      ([Pulled (web_ref ''https://a.com'' (Some ''A'')), Pulled (web_ref ''https://a.com'' (Some [])),
        Yielded (webSources_event [\<lparr>ws_uri = ''https://a.com'', ws_title = ''https://a.com''\<rparr>])], Returned)"
    by (simp add: web_ref_def)
  moreover from kept have "last (filter (\<lambda>x. ws_uri x = ''https://a.com'')
        [\<lparr>ws_uri = ''https://a.com'', ws_title = ''A''\<rparr>, \<lparr>ws_uri = ''https://a.com'', ws_title = ''https://a.com''\<rparr>])
      = \<lparr>ws_uri = ''https://a.com'', ws_title = ''https://a.com''\<rparr>"
    by simp
  ultimately show ?thesis by blast
qed


section \<open>The Today aggregator\<close>


lemma sort_insert_set: "set (sort_insert cmp x ys) = insert x (set ys)"
  by (induction ys) auto

lemma array_sort_set: "set (array_sort cmp xs) = set xs"
  by (induction xs) (simp_all add: array_sort_def sort_insert_set)

lemma array_sort_length: "length (array_sort cmp xs) = length xs"
proof -
  have "length (sort_insert cmp x ys) = Suc (length ys)" for x ys
    by (induction ys) auto
  then show ?thesis by (induction xs) (simp_all add: array_sort_def)
qed

lemma sort_insert_sorted:
  assumes "consistent cmp" and "sorted_wrt (\<lambda>a b. cmp a b \<le> 0) ys"
  shows "sorted_wrt (\<lambda>a b. cmp a b \<le> 0) (sort_insert cmp x ys)"
  using assms(2)
proof (induction ys)
  case Nil
  then show ?case by simp
next
  case (Cons y ys)
  from assms(1) have total: "\<And>a b. cmp a b \<le> 0 \<or> cmp b a \<le> 0"
    and trans: "\<And>a b c. cmp a b \<le> 0 \<Longrightarrow> cmp b c \<le> 0 \<Longrightarrow> cmp a c \<le> 0"
    unfolding consistent_def by blast+
  show ?case
  proof (cases "cmp x y \<le> 0")
    case True
    with Cons.prems trans have "\<forall>z \<in> set ys. cmp x z \<le> 0" by auto
    with True Cons.prems show ?thesis by simp
  next
    case False
    with total have "cmp y x \<le> 0" by blast
    with False Cons show ?thesis by (auto simp: sort_insert_set)
  qed
qed

lemma array_sort_sorted:
  "consistent cmp \<Longrightarrow> sorted_wrt (\<lambda>a b. cmp a b \<le> 0) (array_sort cmp xs)"
  by (induction xs) (simp_all add: array_sort_def sort_insert_sorted)

text \<open>
  The sort is stable: the elements that the comparator does not tell apart from a
  given one keep their order.
\<close>

lemma sort_insert_stable:
  assumes "consistent cmp"
  shows "filter (\<lambda>y. cmp x y \<le> 0 \<and> cmp y x \<le> 0) (sort_insert cmp a ys) =
         (if cmp x a \<le> 0 \<and> cmp a x \<le> 0
          then a # filter (\<lambda>y. cmp x y \<le> 0 \<and> cmp y x \<le> 0) ys
          else filter (\<lambda>y. cmp x y \<le> 0 \<and> cmp y x \<le> 0) ys)"
proof (induction ys)
  case Nil
  then show ?case by simp
next
  case (Cons y ys)
  from assms have trans: "\<And>a b c. cmp a b \<le> 0 \<Longrightarrow> cmp b c \<le> 0 \<Longrightarrow> cmp a c \<le> 0"
    unfolding consistent_def by blast
  show ?case
  proof (cases "cmp a y \<le> 0")
    case True
    then show ?thesis by simp
  next
    case False
    have "\<not> ((cmp x a \<le> 0 \<and> cmp a x \<le> 0) \<and> (cmp x y \<le> 0 \<and> cmp y x \<le> 0))"
      using False trans[of a x y] by blast
    with False Cons.IH show ?thesis by auto
  qed
qed

lemma array_sort_stable:
  assumes "consistent cmp"
  shows "filter (\<lambda>y. cmp x y \<le> 0 \<and> cmp y x \<le> 0) (array_sort cmp xs) =
         filter (\<lambda>y. cmp x y \<le> 0 \<and> cmp y x \<le> 0) xs"
proof (induction xs)
  case Nil
  then show ?case by (simp add: array_sort_def)
next
  case (Cons a xs)
  have "array_sort cmp (a # xs) = sort_insert cmp a (array_sort cmp xs)"
    by (simp add: array_sort_def)
  with Cons sort_insert_stable[OF assms, of x a "array_sort cmp xs"] show ?case by simp
qed

lemma sorted_partition:
  assumes "sorted_wrt R xs" and "\<And>a b. \<not> P a \<Longrightarrow> P b \<Longrightarrow> \<not> R a b"
  shows "xs = filter P xs @ filter (\<lambda>x. \<not> P x) xs"
  using assms(1)
proof (induction xs)
  case Nil
  then show ?case by simp
next
  case (Cons x xs)
  show ?case
  proof (cases "P x")
    case True
    with Cons show ?thesis by simp
  next
    case False
    with Cons.prems assms(2) have "\<forall>z \<in> set xs. \<not> P z" by auto
    then have "filter P xs = []" and "filter (\<lambda>x. \<not> P x) xs = xs" by (auto simp: filter_empty_conv)
    with False show ?thesis by simp
  qed
qed

lemma compare_today_consistent:
  assumes "consistent localeCompare"
  shows "consistent (compare_today localeCompare)"
proof -
  from assms have total: "\<And>a b. localeCompare a b \<le> 0 \<or> localeCompare b a \<le> 0"
    and trans: "\<And>a b c. localeCompare a b \<le> 0 \<Longrightarrow> localeCompare b c \<le> 0 \<Longrightarrow> localeCompare a c \<le> 0"
    unfolding consistent_def by blast+
  have "compare_today localeCompare a b \<le> 0 \<or> compare_today localeCompare b a \<le> 0" for a b
    using total[of "the (time (item a))" "the (time (item b))"] by (auto simp: compare_today_def Let_def)
  moreover have "compare_today localeCompare a c \<le> 0"
    if "compare_today localeCompare a b \<le> 0" "compare_today localeCompare b c \<le> 0" for a b c
    using that trans[of "the (time (item a))" "the (time (item b))" "the (time (item c))"]
    by (auto simp: compare_today_def Let_def split: if_splits)
  ultimately show ?thesis unfolding consistent_def by blast
qed

lemma str_split_nonempty:
  assumes "sep \<noteq> []"
  shows "str_split s sep \<noteq> []"
proof -
  have "split_scan sep cur s \<noteq> []" for cur
    by (induction sep cur s rule: split_scan.induct) auto
  with assms show ?thesis by (simp add: str_split_def)
qed

lemma localTodayStr_nonempty: "localTodayStr today \<noteq> []"
  by (simp add: localTodayStr_def Let_def)

lemma todays_of_note_iff:
  "e \<in> set (todays_of_note today note k items) \<longleftrightarrow>
     (\<exists>i < length items. e = \<lparr>noteId = note_id note, itemIndex = k + i, item = items ! i, noteTitle = note_title note\<rparr>
        \<and> dueDate (items ! i) = localTodayStr today \<and> \<not> completed (items ! i))"
proof (induction items arbitrary: k)
  case Nil
  then show ?case by simp
next
  case (Cons it rest)
  have due: "isActionItemForToday today d \<longleftrightarrow> d = localTodayStr today" for d
    using localTodayStr_nonempty[of today] by (auto simp: isActionItemForToday_def)
  have split: "(\<exists>i < length (it # rest). Q i) \<longleftrightarrow> Q 0 \<or> (\<exists>i < length rest. Q (Suc i))" for Q
    by (auto simp: less_Suc_eq_0_disj)
  show ?case
    unfolding split using Cons.IH[of "Suc k"] by (auto simp: due)
qed

lemma todays_unsorted_iff:
  "e \<in> set (todays_unsorted today ns) \<longleftrightarrow>
     (\<exists>note \<in> set ns. \<exists>i < length (actionItems note).
        e = \<lparr>noteId = note_id note, itemIndex = i, item = actionItems note ! i, noteTitle = note_title note\<rparr>
        \<and> dueDate (actionItems note ! i) = localTodayStr today \<and> \<not> completed (actionItems note ! i))"
  by (induction ns) (auto simp: todays_of_note_iff)


lemma codeUnitCompare_total: "codeUnitCompare a b \<le> 0 \<or> codeUnitCompare b a \<le> 0"
proof (induction a b rule: codeUnitCompare.induct)
  case (4 x xs y ys)
  then show ?case by (cases "(of_char x :: nat) < of_char y"; cases "(of_char y :: nat) < of_char x") simp_all
qed simp_all

lemma codeUnitCompare_trans:
  "codeUnitCompare a b \<le> 0 \<Longrightarrow> codeUnitCompare b c \<le> 0 \<Longrightarrow> codeUnitCompare a c \<le> 0"
proof (induction a b arbitrary: c rule: codeUnitCompare.induct)
  case 1
  then show ?case by simp
next
  case (2 y ys)
  then show ?case by (cases c) simp_all
next
  case (3 x xs)
  then show ?case by simp
next
  case (4 x xs y ys)
  show ?case
  proof (cases c)
    case Nil
    with 4(3) show ?thesis by simp
  next
    case (Cons z zs)
    let ?x = "of_char x :: nat" and ?y = "of_char y :: nat" and ?z = "of_char z :: nat"
    from 4(2) have xy: "?x \<le> ?y" by (simp split: if_splits)
    from 4(3) Cons have yz: "?y \<le> ?z" by (simp split: if_splits)
    show ?thesis
    proof (cases "?x < ?z")
      case True
      then show ?thesis by (simp add: Cons)
    next
      case False
      with xy yz have eq: "?x = ?y" "?y = ?z" by linarith+
      with 4(2) have 1: "codeUnitCompare xs ys \<le> 0" by simp
      from eq 4(3) Cons have 2: "codeUnitCompare ys zs \<le> 0" by simp
      from eq have "\<not> ?x < ?y" "\<not> ?y < ?x" by simp_all
      from 4(1)[OF this 1 2] eq show ?thesis by (simp add: Cons)
    qed
  qed
qed

lemma codeUnitCompare_consistent: "consistent codeUnitCompare"
  unfolding consistent_def using codeUnitCompare_total codeUnitCompare_trans by blast

lemma localTodayStr_example: "localTodayStr example_today = ''2026-11-02''"
  by code_simp

lemma todays_unsorted_example:
  "todays_unsorted example_today [example_note] =
     [\<lparr>noteId = ''n1'', itemIndex = 0, item = task ''call'' (Some ''09:00''), noteTitle = ''Errands''\<rparr>,
      \<lparr>noteId = ''n1'', itemIndex = 1, item = task ''shop'' None, noteTitle = ''Errands''\<rparr>,
      \<lparr>noteId = ''n1'', itemIndex = 2, item = task ''mail'' (Some ''08:00''), noteTitle = ''Errands''\<rparr>]"
proof -
  have title: "note_title example_note = ''Errands''"
    by (simp add: note_title_def example_note_def str_split_def strip_heading_def js_whitespace_def)
  have items: "actionItems example_note =
      [task ''call'' (Some ''09:00''), task ''shop'' None, task ''mail'' (Some ''08:00'')]"
    and nid: "note_id example_note = ''n1''"
    by (simp_all add: example_note_def)
  have due: "isActionItemForToday example_today (dueDate (task name t))"
    and opened: "\<not> completed (task name t)" for name t
    by (simp_all add: isActionItemForToday_def localTodayStr_example task_def)
  show ?thesis
    by (simp add: title items nid due opened)
qed

lemma getTodays_example:
  "getTodaysActionItemsFromNotes codeUnitCompare example_today [example_note] =
     [\<lparr>noteId = ''n1'', itemIndex = 2, item = task ''mail'' (Some ''08:00''), noteTitle = ''Errands''\<rparr>,
      \<lparr>noteId = ''n1'', itemIndex = 0, item = task ''call'' (Some ''09:00''), noteTitle = ''Errands''\<rparr>,
      \<lparr>noteId = ''n1'', itemIndex = 1, item = task ''shop'' None, noteTitle = ''Errands''\<rparr>]"
  unfolding getTodaysActionItemsFromNotes_def todays_unsorted_example
  by (simp add: array_sort_def compare_today_def task_def)

text \<open>
  C6 as stated fails on the order: the comparator returns \<open>-1\<close> when only the first
  item has a time, so timed items come first. For the open items due today with the
  times \<open>09:00\<close>, none and \<open>08:00\<close>, the result is \<open>08:00\<close>, \<open>09:00\<close>, and then the
  item without a time.
\<close>

theorem untimed_items_sort_last_counterexample:
  "map (\<lambda>e. time (item e)) (getTodaysActionItemsFromNotes codeUnitCompare example_today [example_note])
     = [Some ''08:00'', Some ''09:00'', None]
   \<and> map (\<lambda>e. time (item e)) (getTodaysActionItemsFromNotes codeUnitCompare example_today [example_note])
     \<noteq> [None, Some ''08:00'', Some ''09:00'']"
  by (simp add: getTodays_example task_def)

text \<open>
  C6, amended. For every note collection and every consistent collation, the Today
  aggregator returns an entry for item \<open>i\<close> of a note exactly when the item's due
  date equals the caller's local today (\<open>localTodayStr\<close>) and the item is not
  completed; no entry is lost or added by the sort; the entries whose item has a time
  come first, in ascending order of their times, and the entries without a time come
  after them.
\<close>

theorem today_items_timed_first:
  assumes "consistent localeCompare"
  shows "let result = getTodaysActionItemsFromNotes localeCompare today ns
         in (\<forall>e. e \<in> set result \<longleftrightarrow>
               (\<exists>note \<in> set ns. \<exists>i < length (actionItems note).
                  e = \<lparr>noteId = note_id note, itemIndex = i, item = actionItems note ! i,
                       noteTitle = note_title note\<rparr>
                  \<and> dueDate (actionItems note ! i) = localTodayStr today
                  \<and> \<not> completed (actionItems note ! i)))
          \<and> length result = length (todays_unsorted today ns)
          \<and> result = filter has_time result @ filter (\<lambda>e. \<not> has_time e) result
          \<and> sorted_wrt (\<lambda>a b. localeCompare (the (time (item a))) (the (time (item b))) \<le> 0)
               (filter has_time result)"
proof -
  let ?cmp = "compare_today localeCompare"
  let ?result = "getTodaysActionItemsFromNotes localeCompare today ns"
  have sorted: "sorted_wrt (\<lambda>a b. ?cmp a b \<le> 0) ?result"
    unfolding getTodaysActionItemsFromNotes_def
    by (rule array_sort_sorted[OF compare_today_consistent[OF assms]])
  have 1: "\<forall>e. e \<in> set ?result \<longleftrightarrow>
               (\<exists>note \<in> set ns. \<exists>i < length (actionItems note).
                  e = \<lparr>noteId = note_id note, itemIndex = i, item = actionItems note ! i,
                       noteTitle = note_title note\<rparr>
                  \<and> dueDate (actionItems note ! i) = localTodayStr today
                  \<and> \<not> completed (actionItems note ! i))"
    by (simp add: getTodaysActionItemsFromNotes_def array_sort_set todays_unsorted_iff)
  have 2: "length ?result = length (todays_unsorted today ns)"
    by (simp add: getTodaysActionItemsFromNotes_def array_sort_length)
  have "\<not> ?cmp a b \<le> 0" if "\<not> has_time a" "has_time b" for a b
    using that by (simp add: compare_today_def has_time_def)
  from sorted_partition[OF sorted this]
  have 3: "?result = filter has_time ?result @ filter (\<lambda>e. \<not> has_time e) ?result" .
  have timed: "sorted_wrt (\<lambda>a b. ?cmp a b \<le> 0) (filter has_time ?result)"
    using sorted by (rule sorted_wrt_filter)
  have 4: "sorted_wrt (\<lambda>a b. localeCompare (the (time (item a))) (the (time (item b))) \<le> 0)
               (filter has_time ?result)"
  proof (rule sorted_wrt_mono_rel[where P = "\<lambda>a b. ?cmp a b \<le> 0"])
    show "sorted_wrt (\<lambda>a b. ?cmp a b \<le> 0) (filter has_time ?result)"
      by (rule timed)
  next
    fix a b
    assume "a \<in> set (filter has_time ?result)" "b \<in> set (filter has_time ?result)"
      and "?cmp a b \<le> 0"
    then show "localeCompare (the (time (item a))) (the (time (item b))) \<le> 0"
      by (simp add: compare_today_def has_time_def)
  qed
  from 1 2 3 4 show ?thesis unfolding Let_def by blast
qed

theorem today_items_timed_first_witness:
  "getTodaysActionItemsFromNotes codeUnitCompare example_today [example_note] =
     [\<lparr>noteId = ''n1'', itemIndex = 2, item = task ''mail'' (Some ''08:00''), noteTitle = ''Errands''\<rparr>,
      \<lparr>noteId = ''n1'', itemIndex = 0, item = task ''call'' (Some ''09:00''), noteTitle = ''Errands''\<rparr>,
      \<lparr>noteId = ''n1'', itemIndex = 1, item = task ''shop'' None, noteTitle = ''Errands''\<rparr>]
   \<and> filter has_time (getTodaysActionItemsFromNotes codeUnitCompare example_today [example_note]) =
     [\<lparr>noteId = ''n1'', itemIndex = 2, item = task ''mail'' (Some ''08:00''), noteTitle = ''Errands''\<rparr>,
      \<lparr>noteId = ''n1'', itemIndex = 0, item = task ''call'' (Some ''09:00''), noteTitle = ''Errands''\<rparr>]
   \<and> sorted_wrt (\<lambda>a b. codeUnitCompare (the (time (item a))) (the (time (item b))) \<le> 0)
        (filter has_time (getTodaysActionItemsFromNotes codeUnitCompare example_today [example_note]))"
proof -
  note th = today_items_timed_first[OF codeUnitCompare_consistent, of example_today "[example_note]",
      unfolded Let_def]
  note ordered = th[THEN conjunct2, THEN conjunct2, THEN conjunct2]
  have "filter has_time (getTodaysActionItemsFromNotes codeUnitCompare example_today [example_note]) =
     [\<lparr>noteId = ''n1'', itemIndex = 2, item = task ''mail'' (Some ''08:00''), noteTitle = ''Errands''\<rparr>,
      \<lparr>noteId = ''n1'', itemIndex = 0, item = task ''call'' (Some ''09:00''), noteTitle = ''Errands''\<rparr>]"
    unfolding getTodays_example by (simp add: has_time_def task_def)
  with ordered getTodays_example show ?thesis by blast
qed

section \<open>Session reconciliation\<close>


lemma at_index_last: "at_index (pre @ [m]) (length (pre @ [m]) - 1) = Some m"
  by (simp add: at_index_def)

lemma show_progress_last:
  assumes "messages s = pre @ [m]" and "role m = RoleModel" and "content m = Structured c"
  shows "\<exists>c'. show_progress acc s = s\<lparr>messages := pre @ [\<lparr>role = RoleModel, content = Structured c'\<rparr>]\<rparr>"
proof -
  let ?c' = "\<lparr>answer = fullAnswer acc,
              sources = (if length_truthy (collectedSources acc) then collectedSources acc else sources c),
              webSources = (if collectedWebSources acc \<noteq> [] then Some (collectedWebSources acc) else webSources c)\<rparr>"
  have "m\<lparr>content := Structured ?c'\<rparr> = \<lparr>role = RoleModel, content = Structured ?c'\<rparr>"
    using assms(2) by (cases m) simp
  then have "show_progress acc s = s\<lparr>messages := pre @ [\<lparr>role = RoleModel, content = Structured ?c'\<rparr>]\<rparr>"
    using assms at_index_last[of pre m] by (simp add: show_progress_def Let_def)
  then show ?thesis by blast
qed

lemma consume_shape:
  assumes "messages (session st) = pre @ [m]" and "role m = RoleModel" and "content m = Structured c"
  shows "\<exists>c'. snd (consume acc st evs) =
           st\<lparr>session := (session st)\<lparr>messages := pre @ [\<lparr>role = RoleModel, content = Structured c'\<rparr>]\<rparr>\<rparr>"
  using assms
proof (induction evs arbitrary: acc st m c)
  case Nil
  then have "st = st\<lparr>session := (session st)\<lparr>messages := pre @ [\<lparr>role = RoleModel, content = Structured c\<rparr>]\<rparr>\<rparr>"
    by (cases st, cases m) (auto)
  then show ?case by (metis consume.simps(1) snd_conv)
next
  case (Cons ev evs)
  let ?acc = "absorb acc ev"
  from show_progress_last[OF Cons.prems, of ?acc] obtain c1
    where c1: "show_progress ?acc (session st) =
      (session st)\<lparr>messages := pre @ [\<lparr>role = RoleModel, content = Structured c1\<rparr>]\<rparr>" by blast
  let ?st = "st\<lparr>session := show_progress ?acc (session st)\<rparr>"
  have "messages (session ?st) = pre @ [\<lparr>role = RoleModel, content = Structured c1\<rparr>]"
    by (simp add: c1)
  from Cons.IH[OF this, of c1 ?acc] obtain c' where
    "snd (consume ?acc ?st evs) =
       ?st\<lparr>session := (session ?st)\<lparr>messages := pre @ [\<lparr>role = RoleModel, content = Structured c'\<rparr>]\<rparr>\<rparr>"
    by auto
  then have "snd (consume acc st (ev # evs)) =
       st\<lparr>session := (session st)\<lparr>messages := pre @ [\<lparr>role = RoleModel, content = Structured c'\<rparr>]\<rparr>\<rparr>"
    by (simp add: c1 Let_def)
  then show ?case by blast
qed

lemma consume_fst: "fst (consume acc st evs) = foldl absorb acc evs"
  by (induction evs arbitrary: acc st) (simp_all add: Let_def)

lemma foldl_absorb_answer:
  "fullAnswer (foldl absorb acc evs) = fullAnswer acc @ assembled_answer evs"
  by (induction evs arbitrary: acc) (auto simp: assembled_answer_def absorb_def split: option.splits)

lemma foldl_absorb_sources:
  "collectedSources (foldl absorb acc evs) =
     (case filter truthy (List.map_filter ev_sources evs) of [] \<Rightarrow> collectedSources acc | v # vs \<Rightarrow> last (v # vs))"
  by (induction evs arbitrary: acc) (auto simp: absorb_def List.map_filter_simps split: option.splits list.splits)

lemma foldl_absorb_webSources:
  "collectedWebSources (foldl absorb acc evs) =
     (case List.map_filter ev_webSources evs of [] \<Rightarrow> collectedWebSources acc | w # ws \<Rightarrow> last (w # ws))"
  by (induction evs arbitrary: acc) (auto simp: absorb_def List.map_filter_simps split: option.splits list.splits)

lemma foldl_absorb_assembled:
  "foldl absorb \<lparr>fullAnswer = [], collectedSources = JArr [], collectedWebSources = []\<rparr> evs =
     \<lparr>fullAnswer = assembled_answer evs, collectedSources = assembled_sources evs,
      collectedWebSources = assembled_webSources evs\<rparr>"
  (is "?l = ?r")
proof -
  have "fullAnswer ?l = fullAnswer ?r" by (simp add: foldl_absorb_answer)
  moreover have "collectedSources ?l = collectedSources ?r"
    by (simp add: foldl_absorb_sources assembled_sources_def split: list.splits)
  moreover have "collectedWebSources ?l = collectedWebSources ?r"
    by (simp add: foldl_absorb_webSources assembled_webSources_def split: list.splits)
  ultimately show ?thesis by (cases ?l) simp
qed

text \<open>
  The loop variable \<open>collectedSources\<close> holds \<open>[]\<close> or a truthy value throughout, so
  that reading its \<open>length\<close> never meets \<open>null\<close>.
\<close>

lemma consume_invariant:
  assumes "collectedSources acc = JArr [] \<or> truthy (collectedSources acc)"
  shows "collectedSources (fst (consume acc st evs)) = JArr [] \<or> truthy (collectedSources (fst (consume acc st evs)))"
  using assms
proof (induction evs arbitrary: acc st)
  case Nil
  then show ?case by simp
next
  case (Cons ev evs)
  have "collectedSources (absorb acc ev) = JArr [] \<or> truthy (collectedSources (absorb acc ev))"
    using Cons.prems by (auto simp: absorb_def split: option.splits)
  from Cons.IH[OF this] show ?case by (simp add: Let_def)
qed

lemma consume_never_null:
  "collectedSources (fst (consume \<lparr>fullAnswer = [], collectedSources = JArr [], collectedWebSources = []\<rparr> st evs))
     \<noteq> JNull"
  using consume_invariant[of "\<lparr>fullAnswer = [], collectedSources = JArr [], collectedWebSources = []\<rparr>" st evs]
  by auto

lemma persisted_events: "persisted (map EventReceived evs @ rest) = persisted rest"
  by (induction evs) simp_all

lemma stream_calls_events: "stream_calls (map EventReceived evs @ rest) = stream_calls rest"
  by (induction evs) simp_all

lemma received_events: "received (map EventReceived evs @ rest) = evs @ received rest"
  by (induction evs) simp_all

lemma consume_placeholder:
  "\<exists>c'. consume \<lparr>fullAnswer = [], collectedSources = JArr [], collectedWebSources = []\<rparr>
          (st\<lparr>session := (session st)\<lparr>messages := (hist @ [u]) @ [placeholderMessage]\<rparr>\<rparr>) evs =
        (\<lparr>fullAnswer = assembled_answer evs, collectedSources = assembled_sources evs,
          collectedWebSources = assembled_webSources evs\<rparr>,
         st\<lparr>session := (session st)\<lparr>messages := (hist @ [u]) @ [\<lparr>role = RoleModel, content = Structured c'\<rparr>]\<rparr>\<rparr>)"
proof -
  let ?st = "st\<lparr>session := (session st)\<lparr>messages := (hist @ [u]) @ [placeholderMessage]\<rparr>\<rparr>"
  let ?acc = "\<lparr>fullAnswer = [], collectedSources = JArr [], collectedWebSources = []\<rparr>"
  have "messages (session ?st) = (hist @ [u]) @ [placeholderMessage]" by simp
  from consume_shape[OF this, of _ ?acc evs] obtain c' where
    "snd (consume ?acc ?st evs) =
       ?st\<lparr>session := (session ?st)\<lparr>messages := (hist @ [u]) @ [\<lparr>role = RoleModel, content = Structured c'\<rparr>]\<rparr>\<rparr>"
    by (auto simp: placeholderMessage_def)
  then have "snd (consume ?acc ?st evs) =
       st\<lparr>session := (session st)\<lparr>messages := (hist @ [u]) @ [\<lparr>role = RoleModel, content = Structured c'\<rparr>]\<rparr>\<rparr>"
    by simp
  moreover have "fst (consume ?acc ?st evs) =
       \<lparr>fullAnswer = assembled_answer evs, collectedSources = assembled_sources evs,
        collectedWebSources = assembled_webSources evs\<rparr>"
    by (simp add: consume_fst foldl_absorb_assembled)
  ultimately show ?thesis by (metis prod.collapse)
qed

text \<open>The two ways an exchange that passes the guard ends.\<close>

lemma handleSubmit_returned:
  assumes "\<not> isStreaming st" and "trim (question st) \<noteq> []"
    and "continueChatStream ai parse (contextNotes allNotes (session st)) (question st)
           (messages (session st)) (useGoogleSearch st) = (steps, Returned)"
  shows "handleSubmit ai parse allNotes st =
     (let finalSession = (session st)
            \<lparr>title := (if messages (session st) = [] then take 50 (question st) else title (session st)),
             messages := messages (session st) @ [userMessage (question st), assembled_message (yielded steps)]\<rparr>
      in \<lparr>final_state = st\<lparr>session := finalSession, question := [], isStreaming := False, error := None\<rparr>,
          effects = StreamCalled (contextNotes allNotes (session st)) (question st) (messages (session st))
                      (useGoogleSearch st)
                    # map EventReceived (yielded steps) @ [SessionUpdated finalSession]\<rparr>)"
proof -
  let ?st1 = "st\<lparr>isStreaming := True, error := None, question := []\<rparr>"
  from consume_placeholder[where st = ?st1 and hist = "messages (session st)"
      and u = "userMessage (question st)" and evs = "yielded steps"]
  obtain c' where c: "consume \<lparr>fullAnswer = [], collectedSources = JArr [], collectedWebSources = []\<rparr>
          (?st1\<lparr>session := (session ?st1)\<lparr>messages := (messages (session st) @ [userMessage (question st)]) @ [placeholderMessage]\<rparr>\<rparr>)
          (yielded steps) =
        (\<lparr>fullAnswer = assembled_answer (yielded steps), collectedSources = assembled_sources (yielded steps),
          collectedWebSources = assembled_webSources (yielded steps)\<rparr>,
         ?st1\<lparr>session := (session ?st1)\<lparr>messages := (messages (session st) @ [userMessage (question st)])
            @ [\<lparr>role = RoleModel, content = Structured c'\<rparr>]\<rparr>\<rparr>)"
    by blast
  have upd: "(hist @ [u, p])[Suc (length hist) := m] = hist @ [u, m]" for hist u p and m :: ChatMessage
    by (simp add: list_update_append)
  show ?thesis
    using assms c
    by (cases st) (simp add: handleSubmit_def Let_def upd finalMessage_def assembled_message_def)
qed

lemma handleSubmit_threw:
  assumes "\<not> isStreaming st" and "trim (question st) \<noteq> []"
    and "continueChatStream ai parse (contextNotes allNotes (session st)) (question st)
           (messages (session st)) (useGoogleSearch st) = (steps, Threw e)"
  shows "handleSubmit ai parse allNotes st =
     \<lparr>final_state = st\<lparr>session := (session st)\<lparr>messages := messages (session st) @ [userMessage (question st)]\<rparr>,
                       question := [], isStreaming := False, error := Some failure_notice\<rparr>,
      effects = StreamCalled (contextNotes allNotes (session st)) (question st) (messages (session st))
                  (useGoogleSearch st)
                # map EventReceived (yielded steps)\<rparr>"
proof -
  let ?st1 = "st\<lparr>isStreaming := True, error := None, question := []\<rparr>"
  from consume_placeholder[where st = ?st1 and hist = "messages (session st)"
      and u = "userMessage (question st)" and evs = "yielded steps"]
  obtain c' where c: "consume \<lparr>fullAnswer = [], collectedSources = JArr [], collectedWebSources = []\<rparr>
          (?st1\<lparr>session := (session ?st1)\<lparr>messages := (messages (session st) @ [userMessage (question st)]) @ [placeholderMessage]\<rparr>\<rparr>)
          (yielded steps) =
        (\<lparr>fullAnswer = assembled_answer (yielded steps), collectedSources = assembled_sources (yielded steps),
          collectedWebSources = assembled_webSources (yielded steps)\<rparr>,
         ?st1\<lparr>session := (session ?st1)\<lparr>messages := (messages (session st) @ [userMessage (question st)])
            @ [\<lparr>role = RoleModel, content = Structured c'\<rparr>]\<rparr>\<rparr>)"
    by blast
  show ?thesis
    using assms c
    by (cases st) (simp add: handleSubmit_def Let_def failure_notice_def butlast_append)
qed

lemma handleSubmit_rejected:
  "isStreaming st \<or> trim (question st) = [] \<Longrightarrow> handleSubmit ai parse allNotes st = \<lparr>final_state = st, effects = []\<rparr>"
  by (simp add: handleSubmit_def)

lemma completion_cases:
  obtains steps where "run = (steps, Returned)" | steps e where "run = (steps, Threw e)"
  by (cases run; cases "snd run") auto

lemma continueChatStream_one_request:
  "continueChatStream ai parse ns q h g = continueChatStream (\<lambda>r. ai (chat_request ns q h g)) parse ns q h g"
  by (simp add: continueChatStream_def chat_request_def)

lemma sky_run:
  "continueChatStream sky_backend JSON_parse ns q h False =
     (map Pulled sky_chunks @ [Yielded (text_event (Some sky_answer)), Yielded (sources_event sky_sources)],
      Returned)"
proof -
  have "streamed_text sky_chunks = sky_answer @ separator @ sky_payload @ []"
    by (simp add: sky_chunks_def streamed_text_two sky_answer_def separator_def)
  from notes_stream_segments[OF this sky_answer_first, of JSON_parse] sky_payload_last
  show ?thesis
    by (simp add: continueChatStream_def sky_backend_def JSON_parse_sky_payload)
qed

lemma sky_events:
  "yielded (map Pulled sky_chunks @ [Yielded (text_event (Some sky_answer)), Yielded (sources_event sky_sources)])
     = [text_event (Some sky_answer), sources_event sky_sources]"
  by (simp add: yielded_append yielded_pulls)

lemma sky_assembled:
  "assembled_message [text_event (Some sky_answer), sources_event sky_sources] =
     \<lparr>role = RoleModel,
      content = Structured \<lparr>answer = sky_answer, sources = sky_sources, webSources = Some []\<rparr>\<rparr>"
  by (simp add: assembled_message_def assembled_answer_def assembled_sources_def assembled_webSources_def
      text_event_def sources_event_def List.map_filter_simps sky_sources_def)

lemma broken_run:
  "continueChatStream broken_backend parse ns q h True =
     ([Pulled (text_chunk ''The sky ''), Yielded (text_event (Some ''The sky ''))],
      Threw ''Failed to get a valid response from the AI service with Google Search.'')"
  by (simp add: continueChatStream_def broken_backend_def search_stream_def breaks_after_def text_chunk_def)

lemma trim_question: "trim ''What colour is the sky?'' \<noteq> []"
  by (simp add: trim_def js_whitespace_def)

text \<open>
  C1. In every exchange, \<open>onSessionUpdate\<close> is called at most once; it is called
  exactly when the exchange passes the guard and the generator returns normally; the
  call is then the last effect of the exchange, after the call of the generator and
  after every event has been taken from it; and the session handed over has, behind
  the earlier messages and the new user message, the assembled assistant message
  (the texts of the events in order, the last truthy sources, the last web sources) in
  the place of the placeholder.
\<close>

theorem persisted_once_after_success:
  "let out = handleSubmit ai parse allNotes st;
       run = continueChatStream ai parse (contextNotes allNotes (session st)) (question st)
               (messages (session st)) (useGoogleSearch st);
       events = yielded (fst run)
   in length (persisted (effects out)) \<le> 1
    \<and> (persisted (effects out) \<noteq> [] \<longleftrightarrow>
          \<not> isStreaming st \<and> trim (question st) \<noteq> [] \<and> snd run = Returned)
    \<and> (\<forall>s \<in> set (persisted (effects out)).
          effects out =
            StreamCalled (contextNotes allNotes (session st)) (question st) (messages (session st))
              (useGoogleSearch st)
            # map EventReceived events @ [SessionUpdated s]
          \<and> messages s = messages (session st) @ [userMessage (question st), assembled_message events])"
proof (cases "isStreaming st \<or> trim (question st) = []")
  case True
  then show ?thesis by (auto simp: handleSubmit_rejected Let_def)
next
  case False
  then have guard: "\<not> isStreaming st" "trim (question st) \<noteq> []" by simp_all
  let ?run = "continueChatStream ai parse (contextNotes allNotes (session st)) (question st)
               (messages (session st)) (useGoogleSearch st)"
  show ?thesis
  proof (cases ?run rule: completion_cases)
    case (1 steps)
    from handleSubmit_returned[OF guard 1] guard 1 show ?thesis
      by (simp add: Let_def persisted_events)
  next
    case (2 steps e)
    from handleSubmit_threw[OF guard 2] guard 2 show ?thesis
      by (simp add: Let_def persisted_events[of _ "[]", simplified])
  qed
qed

theorem persisted_once_after_success_witness:
  "effects (handleSubmit sky_backend JSON_parse [example_note, other_note]
       (asking ''What colour is the sky?'' fresh_session False)) =
     [StreamCalled [example_note] ''What colour is the sky?'' [] False,
      EventReceived (text_event (Some ''The sky is blue.\<newline>'')),
      EventReceived (sources_event sky_sources),
      SessionUpdated
        \<lparr>session_id = ''s1'', title = ''What colour is the sky?'', createdAt = ''2026-11-02T09:00:00Z'',
         noteIds = [''n1''],
         messages = [\<lparr>role = RoleUser, content = Plain ''What colour is the sky?''\<rparr>,
                     \<lparr>role = RoleModel,
                      content = Structured \<lparr>answer = ''The sky is blue.\<newline>'', sources = sky_sources,
                                            webSources = Some []\<rparr>\<rparr>]\<rparr>]
   \<and> length (persisted (effects (handleSubmit sky_backend JSON_parse [example_note, other_note]
       (asking ''What colour is the sky?'' fresh_session False)))) \<le> 1"
proof -
  let ?st = "asking ''What colour is the sky?'' fresh_session False"
  have ctx: "contextNotes [example_note, other_note] (session ?st) = [example_note]"
    by (simp add: contextNotes_def asking_def fresh_session_def example_note_def other_note_def)
  have guard: "\<not> isStreaming ?st" "trim (question ?st) \<noteq> []"
    by (simp_all add: asking_def trim_question)
  have run: "continueChatStream sky_backend JSON_parse (contextNotes [example_note, other_note] (session ?st))
      (question ?st) (messages (session ?st)) (useGoogleSearch ?st) =
      (map Pulled sky_chunks @ [Yielded (text_event (Some sky_answer)), Yielded (sources_event sky_sources)],
       Returned)"
    by (simp add: asking_def sky_run)
  note th = persisted_once_after_success[of sky_backend JSON_parse "[example_note, other_note]" ?st,
      unfolded Let_def]
  from th have once: "length (persisted (effects (handleSubmit sky_backend JSON_parse [example_note, other_note] ?st))) \<le> 1"
    by blast
  have "effects (handleSubmit sky_backend JSON_parse [example_note, other_note] ?st) =
     [StreamCalled [example_note] ''What colour is the sky?'' [] False,
      EventReceived (text_event (Some ''The sky is blue.\<newline>'')),
      EventReceived (sources_event sky_sources),
      SessionUpdated
        \<lparr>session_id = ''s1'', title = ''What colour is the sky?'', createdAt = ''2026-11-02T09:00:00Z'',
         noteIds = [''n1''],
         messages = [\<lparr>role = RoleUser, content = Plain ''What colour is the sky?''\<rparr>,
                     \<lparr>role = RoleModel,
                      content = Structured \<lparr>answer = ''The sky is blue.\<newline>'', sources = sky_sources,
                                            webSources = Some []\<rparr>\<rparr>]\<rparr>]"
    unfolding handleSubmit_returned[OF guard run] Let_def sky_events sky_assembled ctx
    by (simp add: asking_def fresh_session_def userMessage_def sky_answer_def)
  with once show ?thesis by blast
qed

text \<open>
  C7. When an exchange passes the guard and the generator returns normally, the title
  of the session, in the state and in the session handed to \<open>onSessionUpdate\<close>, is
  the first 50 characters of the question if the message list was empty before the
  exchange, and the title the session had otherwise.
\<close>

theorem title_from_first_question:
  assumes "\<not> isStreaming st" and "trim (question st) \<noteq> []"
    and "snd (continueChatStream ai parse (contextNotes allNotes (session st)) (question st)
           (messages (session st)) (useGoogleSearch st)) = Returned"
  shows "title (session (final_state (handleSubmit ai parse allNotes st))) =
           (if messages (session st) = [] then take 50 (question st) else title (session st))
       \<and> map title (persisted (effects (handleSubmit ai parse allNotes st))) =
           [if messages (session st) = [] then take 50 (question st) else title (session st)]"
proof -
  from assms(3) obtain steps where
    "continueChatStream ai parse (contextNotes allNotes (session st)) (question st)
       (messages (session st)) (useGoogleSearch st) = (steps, Returned)"
    by (metis prod.collapse)
  from handleSubmit_returned[OF assms(1,2) this] show ?thesis
    by (simp add: Let_def persisted_events)
qed

lemma trim_long_question: "trim long_question \<noteq> []"
  by (simp add: trim_def js_whitespace_def long_question_def)

theorem title_from_first_question_witness:
  "title (session (final_state (handleSubmit sky_backend JSON_parse [example_note] (asking long_question fresh_session False))))
     = ''Which of my notes mention the colour of the sky, a''
   \<and> title (session (final_state (handleSubmit sky_backend JSON_parse [example_note]
         (asking ''And at night?''
            (fresh_session\<lparr>title := ''Sky'', messages := [userMessage ''Sky?'', placeholderMessage]\<rparr>) False))))
     = ''Sky''"
proof -
  let ?st = "asking long_question fresh_session False"
  let ?st' = "asking ''And at night?''
            (fresh_session\<lparr>title := ''Sky'', messages := [userMessage ''Sky?'', placeholderMessage]\<rparr>) False"
  have 1: "\<not> isStreaming ?st" "trim (question ?st) \<noteq> []"
    "snd (continueChatStream sky_backend JSON_parse (contextNotes [example_note] (session ?st)) (question ?st)
           (messages (session ?st)) (useGoogleSearch ?st)) = Returned"
    by (simp_all add: asking_def trim_long_question sky_run)
  have 2: "\<not> isStreaming ?st'" "trim (question ?st') \<noteq> []"
    "snd (continueChatStream sky_backend JSON_parse (contextNotes [example_note] (session ?st')) (question ?st')
           (messages (session ?st')) (useGoogleSearch ?st')) = Returned"
    by (simp_all add: asking_def trim_def js_whitespace_def sky_run)
  from title_from_first_question[OF 1] title_from_first_question[OF 2]
  show ?thesis
    by (simp add: asking_def fresh_session_def long_question_def)
qed

text \<open>
  C8. When an exchange passes the guard and the generator throws, at whatever point
  of the stream, the message list of the session ends up as the list before the
  exchange followed by the new user message: the last element of the working list,
  the placeholder with whatever progress it showed, is removed and nothing else is
  touched. The error notice is set, the exchange is over (\<open>isStreaming\<close> is false
  again), the rest of the session is as before, and \<open>onSessionUpdate\<close> is not called.
\<close>

theorem failure_removes_placeholder_only:
  assumes "\<not> isStreaming st" and "trim (question st) \<noteq> []"
    and "snd (continueChatStream ai parse (contextNotes allNotes (session st)) (question st)
           (messages (session st)) (useGoogleSearch st)) = Threw e"
  shows "session (final_state (handleSubmit ai parse allNotes st)) =
           (session st)\<lparr>messages := messages (session st) @ [\<lparr>role = RoleUser, content = Plain (question st)\<rparr>]\<rparr>
       \<and> error (final_state (handleSubmit ai parse allNotes st)) = Some failure_notice
       \<and> \<not> isStreaming (final_state (handleSubmit ai parse allNotes st))
       \<and> persisted (effects (handleSubmit ai parse allNotes st)) = []"
proof -
  from assms(3) obtain steps where
    "continueChatStream ai parse (contextNotes allNotes (session st)) (question st)
       (messages (session st)) (useGoogleSearch st) = (steps, Threw e)"
    by (metis prod.collapse)
  from handleSubmit_threw[OF assms(1,2) this] show ?thesis
    by (simp add: userMessage_def persisted_events[of _ "[]", simplified])
qed

theorem failure_removes_placeholder_only_witness:
  "final_state (handleSubmit broken_backend JSON_parse [example_note] (asking ''What colour is the sky?'' fresh_session True))
     = \<lparr>session = fresh_session\<lparr>messages := [\<lparr>role = RoleUser, content = Plain ''What colour is the sky?''\<rparr>]\<rparr>,
        question = [], isStreaming = False, error = Some failure_notice, useGoogleSearch = True\<rparr>
   \<and> effects (handleSubmit broken_backend JSON_parse [example_note] (asking ''What colour is the sky?'' fresh_session True))
     = [StreamCalled [example_note] ''What colour is the sky?'' [] True,
        EventReceived (text_event (Some ''The sky ''))]"
proof -
  let ?st = "asking ''What colour is the sky?'' fresh_session True"
  have guard: "\<not> isStreaming ?st" "trim (question ?st) \<noteq> []"
    by (simp_all add: asking_def trim_question)
  have run: "continueChatStream broken_backend JSON_parse (contextNotes [example_note] (session ?st))
      (question ?st) (messages (session ?st)) (useGoogleSearch ?st) =
      ([Pulled (text_chunk ''The sky ''), Yielded (text_event (Some ''The sky ''))],
       Threw ''Failed to get a valid response from the AI service with Google Search.'')"
    by (simp add: asking_def broken_run)
  have thrown: "snd (continueChatStream broken_backend JSON_parse (contextNotes [example_note] (session ?st))
      (question ?st) (messages (session ?st)) (useGoogleSearch ?st)) =
       Threw ''Failed to get a valid response from the AI service with Google Search.''"
    by (simp add: run)
  have ctx: "contextNotes [example_note] (session ?st) = [example_note]"
    by (simp add: contextNotes_def asking_def fresh_session_def example_note_def)
  note th = failure_removes_placeholder_only[OF guard thrown]
  have eff: "effects (handleSubmit broken_backend JSON_parse [example_note] ?st)
     = [StreamCalled [example_note] ''What colour is the sky?'' [] True,
        EventReceived (text_event (Some ''The sky ''))]"
    unfolding handleSubmit_threw[OF guard run] ctx
    by (simp add: asking_def fresh_session_def)
  have rest: "question (final_state (handleSubmit broken_backend JSON_parse [example_note] ?st)) = []"
    "useGoogleSearch (final_state (handleSubmit broken_backend JSON_parse [example_note] ?st)) = True"
    unfolding handleSubmit_threw[OF guard run] by (simp_all add: asking_def)
  have "final_state (handleSubmit broken_backend JSON_parse [example_note] ?st)
     = \<lparr>session = fresh_session\<lparr>messages := [\<lparr>role = RoleUser, content = Plain ''What colour is the sky?''\<rparr>]\<rparr>,
        question = [], isStreaming = False, error = Some failure_notice, useGoogleSearch = True\<rparr>"
    using th rest
    by (cases "final_state (handleSubmit broken_backend JSON_parse [example_note] ?st)")
       (simp add: asking_def fresh_session_def)
  with eff show ?thesis by blast
qed

text \<open>
  C9. An exchange that passes the guard runs the streaming protocol once, on the
  notes of \<open>allNotes\<close> whose id is among the session's \<open>noteIds\<close>, the question, and
  as history the message list of the session as it was before the exchange, that is,
  without the new user message and the placeholder that the exchange appends to its
  working copy. The events the exchange takes are the events this run yields, and
  the effects and the final message list of the exchange are those of this run: the
  call, the events, and on a normal return the session with the assembled message.
  The run asks the backend one request, the one built from these notes, this question
  and this history. The history is read only: the message list of the session still
  begins with it when the exchange is over.
\<close>

theorem stream_called_with_prior_history:
  assumes "\<not> isStreaming st" and "trim (question st) \<noteq> []"
  shows "let ctx = filter (\<lambda>note. note_id note \<in> set (noteIds (session st))) allNotes;
             hist = messages (session st);
             run = continueChatStream ai parse ctx (question st) hist (useGoogleSearch st);
             out = handleSubmit ai parse allNotes st
         in stream_calls (effects out) = [StreamCalled ctx (question st) hist (useGoogleSearch st)]
          \<and> received (effects out) = yielded (fst run)
          \<and> effects out =
               StreamCalled ctx (question st) hist (useGoogleSearch st)
               # map EventReceived (yielded (fst run))
               @ (case snd run of Returned \<Rightarrow> [SessionUpdated (session (final_state out))] | Threw e \<Rightarrow> [])
          \<and> messages (session (final_state out)) =
               hist @ userMessage (question st)
               # (case snd run of Returned \<Rightarrow> [assembled_message (yielded (fst run))] | Threw e \<Rightarrow> [])
          \<and> run = (if useGoogleSearch st
                    then search_stream (ai (search_request ctx (question st) hist))
                    else notes_stream parse (ai (notes_request ctx (question st) hist)))
          \<and> take (length hist) (messages (session (final_state out))) = hist
          \<and> out = handleSubmit (\<lambda>request. ai (chat_request ctx (question st) hist (useGoogleSearch st)))
                     parse allNotes st"
proof -
  let ?ctx = "contextNotes allNotes (session st)"
  let ?hist = "messages (session st)"
  let ?run = "continueChatStream ai parse ?ctx (question st) ?hist (useGoogleSearch st)"
  let ?out = "handleSubmit ai parse allNotes st"
  have body: "stream_calls (effects ?out) = [StreamCalled ?ctx (question st) ?hist (useGoogleSearch st)]
          \<and> received (effects ?out) = yielded (fst ?run)
          \<and> effects ?out =
               StreamCalled ?ctx (question st) ?hist (useGoogleSearch st)
               # map EventReceived (yielded (fst ?run))
               @ (case snd ?run of Returned \<Rightarrow> [SessionUpdated (session (final_state ?out))] | Threw e \<Rightarrow> [])
          \<and> messages (session (final_state ?out)) =
               ?hist @ userMessage (question st)
               # (case snd ?run of Returned \<Rightarrow> [assembled_message (yielded (fst ?run))] | Threw e \<Rightarrow> [])
          \<and> take (length ?hist) (messages (session (final_state ?out))) = ?hist"
  proof (cases ?run rule: completion_cases)
    case (1 steps)
    from handleSubmit_returned[OF assms 1] 1 show ?thesis
      by (simp add: Let_def stream_calls_events received_events)
  next
    case (2 steps e)
    from handleSubmit_threw[OF assms 2] 2 show ?thesis
      by (simp add: stream_calls_events[of _ "[]", simplified] received_events[of _ "[]", simplified])
  qed
  have req: "?run = (if useGoogleSearch st
                    then search_stream (ai (search_request ?ctx (question st) ?hist))
                    else notes_stream parse (ai (notes_request ?ctx (question st) ?hist)))"
    by (simp add: continueChatStream_def)
  have one: "?out =
      handleSubmit (\<lambda>request. ai (chat_request ?ctx (question st) ?hist (useGoogleSearch st))) parse allNotes st"
    unfolding handleSubmit_def
    using continueChatStream_one_request[of ai parse ?ctx "question st" ?hist "useGoogleSearch st"]
    by simp
  from body req one show ?thesis
    unfolding Let_def contextNotes_def by blast
qed

theorem stream_called_with_prior_history_witness:
  "stream_calls (effects (handleSubmit sky_backend JSON_parse [other_note, example_note]
       (asking ''And at night?''
          (fresh_session\<lparr>messages := [userMessage ''Sky?'', assembled_message []]\<rparr>) False))) =
     [StreamCalled [example_note] ''And at night?'' [userMessage ''Sky?'', assembled_message []] False]
   \<and> received (effects (handleSubmit sky_backend JSON_parse [other_note, example_note]
       (asking ''And at night?''
          (fresh_session\<lparr>messages := [userMessage ''Sky?'', assembled_message []]\<rparr>) False))) =
     [text_event (Some sky_answer), sources_event sky_sources]
   \<and> messages (session (final_state (handleSubmit sky_backend JSON_parse [other_note, example_note]
       (asking ''And at night?''
          (fresh_session\<lparr>messages := [userMessage ''Sky?'', assembled_message []]\<rparr>) False)))) =
     [userMessage ''Sky?'', assembled_message [], userMessage ''And at night?'',
      assembled_message [text_event (Some sky_answer), sources_event sky_sources]]
   \<and> take 2 (messages (session (final_state (handleSubmit sky_backend JSON_parse [other_note, example_note]
       (asking ''And at night?''
          (fresh_session\<lparr>messages := [userMessage ''Sky?'', assembled_message []]\<rparr>) False))))) =
     [userMessage ''Sky?'', assembled_message []]"
proof -
  let ?st = "asking ''And at night?'' (fresh_session\<lparr>messages := [userMessage ''Sky?'', assembled_message []]\<rparr>) False"
  have guard: "\<not> isStreaming ?st" "trim (question ?st) \<noteq> []"
    by (simp_all add: asking_def trim_def js_whitespace_def)
  have ctx: "filter (\<lambda>note. note_id note \<in> set (noteIds (session ?st))) [other_note, example_note] = [example_note]"
    by (simp add: asking_def fresh_session_def example_note_def other_note_def)
  have fields: "question ?st = ''And at night?''" "useGoogleSearch ?st = False"
    "messages (session ?st) = [userMessage ''Sky?'', assembled_message []]"
    by (simp_all add: asking_def)
  note th = stream_called_with_prior_history[OF guard, of "[other_note, example_note]" sky_backend JSON_parse,
      unfolded Let_def ctx fields sky_run sky_events]
  note calls = th[THEN conjunct1]
  note recv = th[THEN conjunct2, THEN conjunct1]
  note msgs = th[THEN conjunct2, THEN conjunct2, THEN conjunct2, THEN conjunct1]
  note kept = th[THEN conjunct2, THEN conjunct2, THEN conjunct2, THEN conjunct2, THEN conjunct2, THEN conjunct1]
  from recv have 2: "received (effects (handleSubmit sky_backend JSON_parse [other_note, example_note] ?st)) =
     [text_event (Some sky_answer), sources_event sky_sources]"
    by (simp add: sky_events)
  from msgs have 3: "messages (session (final_state (handleSubmit sky_backend JSON_parse [other_note, example_note] ?st))) =
     [userMessage ''Sky?'', assembled_message [], userMessage ''And at night?'',
      assembled_message [text_event (Some sky_answer), sources_event sky_sources]]"
    by (simp add: sky_events)
  from kept have 4: "take 2 (messages (session (final_state (handleSubmit sky_backend JSON_parse [other_note, example_note] ?st)))) =
     [userMessage ''Sky?'', assembled_message []]"
    by (simp add: numeral_2_eq_2)
  from calls 2 3 4 show ?thesis by blast
qed

end
